theory Spec2Isabelle
  imports Complex_Main "HOL-Library.AList" "HOL-Library.Char_ord" "HOL-Library.List_Lexorder"
    "HOL-Library.Log_Nat" "HOL-Library.Code_Target_Numeral"
begin

section \<open>JavaScript strings and values\<close>

text \<open>
  Strings are lists of 8-bit code units (Latin-1).  A property that may be absent
  (\<^verbatim>\<open>undefined\<close> or \<^verbatim>\<open>null\<close>) is an \<open>option\<close>.
\<close>

definition is_space :: "char \<Rightarrow> bool" where
  \<comment> \<open>the white space and line terminators of ECMAScript below U+0100\<close>
  "is_space c = ((of_char c :: nat) \<in> {9, 10, 11, 12, 13, 32, 160})"

definition trim :: "string \<Rightarrow> string" where
  \<comment> \<open>\<^verbatim>\<open>String.prototype.trim\<close>\<close>
  "trim s = rev (dropWhile is_space (rev (dropWhile is_space s)))"

definition lower_char :: "char \<Rightarrow> char" where
  "lower_char c =
     (let n = (of_char c :: nat)
      in if (65 \<le> n \<and> n \<le> 90) \<or> (192 \<le> n \<and> n \<le> 222 \<and> n \<noteq> 215)
         then char_of (n + 32) else c)"

definition toLowerCase :: "string \<Rightarrow> string" where
  "toLowerCase s = map lower_char s"

definition str_or :: "string option \<Rightarrow> string \<Rightarrow> string" where
  \<comment> \<open>\<^verbatim>\<open>v || d\<close> on a string-valued property: absent and empty are falsy\<close>
  "str_or v d = (case v of None \<Rightarrow> d | Some s \<Rightarrow> if s = [] then d else s)"

definition truthy :: "string option \<Rightarrow> bool" where
  "truthy v = (case v of None \<Rightarrow> False | Some s \<Rightarrow> s \<noteq> [])"

definition is_digit :: "char \<Rightarrow> bool" where
  \<comment> \<open>the class \<^verbatim>\<open>\d\<close> of a regular expression without the unicode flag\<close>
  "is_digit c = (48 \<le> (of_char c :: nat) \<and> (of_char c :: nat) \<le> 57)"

definition digit_val :: "char \<Rightarrow> nat" where
  "digit_val c = of_char c - 48"

definition digit_char :: "nat \<Rightarrow> char" where
  "digit_char d = ''0123456789'' ! d"

definition digits_val :: "string \<Rightarrow> nat" where
  "digits_val ds = foldl (\<lambda>a c. 10 * a + digit_val c) 0 ds"

fun nat_digits :: "nat \<Rightarrow> string" where
  \<comment> \<open>\<^verbatim>\<open>String(n)\<close> for a non-negative integer\<close>
  "nat_digits n = (if n < 10 then [digit_char n] else nat_digits (n div 10) @ [digit_char (n mod 10)])"

declare nat_digits.simps [simp del]

definition padStart3 :: "string \<Rightarrow> string" where
  \<comment> \<open>\<^verbatim>\<open>s.padStart(3, '0')\<close>\<close>
  "padStart3 s = replicate (3 - length s) (CHR ''0'') @ s"

section \<open>Numbers\<close>

text \<open>
  A JavaScript number is a double: \<^verbatim>\<open>NaN\<close>, an infinity, or a sign and a magnitude.  The
  magnitude of a double is a rational \<open>n * 2 ^ k\<close> with \<open>n \<le> 2 ^ 53\<close> and \<open>k \<ge> - 1074\<close>,
  below \<open>2 ^ 1024\<close>; it is held as that rational, and the sign apart, as a double keeps the
  sign of zero.  A real number becomes a double by rounding to the nearest one, ties to
  the even one, as IEEE 754 and ECMAScript have it.
\<close>

datatype number = NaN | Infinity bool | Finite bool rat

definition pow2 :: "int \<Rightarrow> rat" where
  "pow2 e = (if 0 \<le> e then 2 ^ nat e else 1 / 2 ^ nat (- e))"

definition floor_log2 :: "rat \<Rightarrow> int" where
  \<comment> \<open>the exponent \<open>e\<close> with \<open>2 ^ e \<le> x < 2 ^ (e + 1)\<close>, for \<open>x > 0\<close>\<close>
  "floor_log2 x = (if 1 \<le> x then bitlen \<lfloor>x\<rfloor> - 1 else - bitlen (\<lceil>1 / x\<rceil> - 1))"

definition dexp :: "rat \<Rightarrow> int" where
  \<comment> \<open>the exponent of the doubles around \<open>x > 0\<close>; the subnormal doubles, below
      \<open>2 ^ - 1022\<close>, have the least exponent\<close>
  "dexp x = max (floor_log2 x) (- 1022)"

definition ulp :: "rat \<Rightarrow> rat" where
  \<comment> \<open>the distance between the doubles around \<open>x > 0\<close>, which have 52 fraction bits\<close>
  "ulp x = pow2 (dexp x - 52)"

definition round_half_even :: "rat \<Rightarrow> int" where
  "round_half_even q =
     (let f = \<lfloor>q\<rfloor>; r = q - of_int f
      in if r < 1 / 2 then f else if 1 / 2 < r then f + 1 else if even f then f else f + 1)"

definition nearest_double :: "rat \<Rightarrow> rat" where
  \<comment> \<open>\<open>x \<ge> 0\<close> rounded to a multiple of \<open>ulp x\<close>, were the exponent unbounded above\<close>
  "nearest_double x = (if x = 0 then 0 else of_int (round_half_even (x / ulp x)) * ulp x)"

definition to_number :: "bool \<Rightarrow> rat \<Rightarrow> number" where
  \<comment> \<open>the Number value of a sign and a magnitude: what rounds to \<open>2 ^ 1024\<close> or more
      is infinite\<close>
  "to_number neg x = (let y = nearest_double x in if 2 ^ 1024 \<le> y then Infinity neg else Finite neg y)"

fun js_neg :: "number \<Rightarrow> number" where
  "js_neg NaN = NaN"
| "js_neg (Infinity s) = Infinity (\<not> s)"
| "js_neg (Finite s x) = Finite (\<not> s) x"

fun js_add :: "number \<Rightarrow> number \<Rightarrow> number" where
  \<comment> \<open>\<^verbatim>\<open>a + b\<close>: the exact sum, rounded; a sum that is exactly zero is \<open>-0\<close> only when both
      operands are negative\<close>
  "js_add NaN _ = NaN"
| "js_add _ NaN = NaN"
| "js_add (Infinity s) (Infinity t) = (if s = t then Infinity s else NaN)"
| "js_add (Infinity s) (Finite _ _) = Infinity s"
| "js_add (Finite _ _) (Infinity t) = Infinity t"
| "js_add (Finite s x) (Finite t y) =
     (let v = (if s then - x else x) + (if t then - y else y)
      in if v = 0 then Finite (s \<and> t) 0 else to_number (v < 0) \<bar>v\<bar>)"

definition js_sub :: "number \<Rightarrow> number \<Rightarrow> number" where
  \<comment> \<open>\<^verbatim>\<open>a - b\<close>\<close>
  "js_sub a b = js_add a (js_neg b)"

fun js_abs :: "number \<Rightarrow> number" where
  \<comment> \<open>\<^verbatim>\<open>Math.abs\<close>\<close>
  "js_abs NaN = NaN"
| "js_abs (Infinity _) = Infinity False"
| "js_abs (Finite _ x) = Finite False x"

fun js_less :: "number \<Rightarrow> number \<Rightarrow> bool" where
  \<comment> \<open>\<^verbatim>\<open>a < b\<close>, false when one of them is \<^verbatim>\<open>NaN\<close>\<close>
  "js_less NaN _ = False"
| "js_less _ NaN = False"
| "js_less (Infinity s) (Infinity t) = (s \<and> \<not> t)"
| "js_less (Infinity s) (Finite _ _) = s"
| "js_less (Finite _ _) (Infinity t) = (\<not> t)"
| "js_less (Finite s x) (Finite t y) = ((if s then - x else x) < (if t then - y else y))"

text \<open>
  A number is written in decimal with the digits of the decimal of fewest digits that
  reads back as that number, as \<^verbatim>\<open>Number.prototype.toString\<close> finds them: the search
  goes from the coarse powers of ten to the fine ones and stops at the first power \<open>10 ^ g\<close>
  that has a multiple reading back as \<open>x\<close>; of two such multiples the one nearer to \<open>x\<close>
  is taken.  Every double is a multiple of \<open>10 ^ - 1074\<close>, so the search has ended by then.
\<close>

definition pow10 :: "int \<Rightarrow> rat" where
  "pow10 e = (if 0 \<le> e then 10 ^ nat e else 1 / 10 ^ nat (- e))"

definition below :: "int \<Rightarrow> rat \<Rightarrow> rat" where
  \<comment> \<open>the multiple of \<open>10 ^ g\<close> at or next below \<open>x\<close>\<close>
  "below g x = of_int \<lfloor>x / pow10 g\<rfloor> * pow10 g"

definition above :: "int \<Rightarrow> rat \<Rightarrow> rat" where
  "above g x = below g x + pow10 g"

function shortest_at :: "int \<Rightarrow> rat \<Rightarrow> rat" where
  "shortest_at g x =
     (let lo = below g x;
          hi = above g x;
          lo_ok = (nearest_double lo = x);
          hi_ok = (nearest_double hi = x)
      in if lo_ok \<and> hi_ok
         then (if x - lo < hi - x then lo
               else if hi - x < x - lo then hi
               else if even \<lfloor>x / pow10 g\<rfloor> then lo else hi)
         else if lo_ok then lo
         else if hi_ok then hi
         else if g \<le> - 1074 then x
         else shortest_at (g - 1) x)"
  by pat_completeness auto
termination by (relation "measure (\<lambda>(g, x). nat (g + 1074))") auto

declare shortest_at.simps [simp del]

fun decimal_digits :: "int \<Rightarrow> int" where
  \<comment> \<open>how many digits the integer has\<close>
  "decimal_digits n = (if n < 10 then 1 else decimal_digits (n div 10) + 1)"

declare decimal_digits.simps [simp del]

definition shortest_decimal :: "rat \<Rightarrow> rat" where
  \<comment> \<open>the decimal of fewest digits that reads back as the magnitude \<open>x\<close> of a double\<close>
  "shortest_decimal x = (if x = 0 then 0 else shortest_at (decimal_digits \<lfloor>x\<rfloor>) x)"

section \<open>Amount cells\<close>

definition normalizeEditableCellValue :: "string option \<Rightarrow> string" where
  "normalizeEditableCellValue v = (case v of None \<Rightarrow> [] | Some s \<Rightarrow> s)"

text \<open>
  \<^verbatim>\<open>Number.parseFloat\<close> reads the longest prefix that is a decimal literal and rounds its
  value to a double.  It is only applied to the cleaned string, which holds digits, dots
  and minus signs, so the other parts of the literal syntax (a plus sign, an exponent,
  \<^verbatim>\<open>Infinity\<close>, leading blanks) cannot occur.
\<close>

type_synonym jsnum = "bool \<times> rat"

definition num_val :: "jsnum \<Rightarrow> rat" where
  "num_val p = (if fst p then - snd p else snd p)"

definition decimal_literal :: "string \<Rightarrow> jsnum option" where
  \<comment> \<open>the sign and the exact value of the longest prefix that is a decimal literal\<close>
  "decimal_literal s =
     (let neg = (s \<noteq> [] \<and> hd s = CHR ''-'');
          body = (if neg then tl s else s);
          ip = takeWhile is_digit body;
          rest = dropWhile is_digit body;
          fp = (if rest \<noteq> [] \<and> hd rest = CHR ''.'' then takeWhile is_digit (tl rest) else [])
      in if ip = [] \<and> fp = [] then None
         else Some (neg, of_nat (digits_val ip) + of_nat (digits_val fp) / 10 ^ length fp))"

definition parseFloat :: "string \<Rightarrow> number" where
  "parseFloat s = (case decimal_literal s of None \<Rightarrow> NaN | Some (neg, v) \<Rightarrow> to_number neg v)"

definition clean_amount :: "string \<Rightarrow> string" where
  \<comment> \<open>\<^verbatim>\<open>raw.replaceAll(',', '').replace(/[^\d.\-]/g, '')\<close>\<close>
  "clean_amount raw =
     filter (\<lambda>c. is_digit c \<or> c = CHR ''.'' \<or> c = CHR ''-'') (filter (\<lambda>c. c \<noteq> CHR '','') raw)"

definition parseAmountForFormatting :: "string option \<Rightarrow> jsnum option" where
  \<comment> \<open>\<open>None\<close> is \<^verbatim>\<open>null\<close>; a result is a finite double, its sign and its magnitude\<close>
  "parseAmountForFormatting v =
     (let raw = trim (normalizeEditableCellValue v)
      in if raw = [] then None
         else
           let hasParenNegative = (hd raw = CHR ''('' \<and> last raw = CHR '')'');
               cleaned = clean_amount raw
           in if cleaned = [] \<or> cleaned = ''-'' \<or> cleaned = ''.'' \<or> cleaned = ''-.'' then None
              else case parseFloat cleaned of
                     Finite neg x \<Rightarrow>
                       if hasParenNegative \<and> 0 < num_val (neg, x) then Some (True, x)
                       else Some (neg, x)
                   | _ \<Rightarrow> None)"

fun grouped :: "nat \<Rightarrow> string" where
  \<comment> \<open>the integer digits in groups of three, as the \<^verbatim>\<open>en-US\<close> locale prints them\<close>
  "grouped n =
     (if n < 1000 then nat_digits n
      else grouped (n div 1000) @ '','' @
           [digit_char (n mod 1000 div 100), digit_char (n mod 100 div 10), digit_char (n mod 10)])"

declare grouped.simps [simp del]

definition hundredths :: "rat \<Rightarrow> nat" where
  \<comment> \<open>the decimal digits of the magnitude \<open>x\<close> of a double, rounded half away from zero
      at the second fraction digit: the number of hundredths shown\<close>
  "hundredths x = nat \<lfloor>shortest_decimal x * 100 + 1 / 2\<rfloor>"

definition toLocaleString2 :: "jsnum \<Rightarrow> string" where
  \<comment> \<open>\<^verbatim>\<open>n.toLocaleString('en-US', {minimumFractionDigits: 2, maximumFractionDigits: 2})\<close>.
      The number formatter of the engines (ICU) rounds the decimal digits of the number,
      not its binary value: 1.005 is shown as 1.01.\<close>
  "toLocaleString2 p =
     (let cents = hundredths (snd p)
      in (if fst p then ''-'' else []) @ grouped (cents div 100) @ ''.'' @
         [digit_char (cents mod 100 div 10), digit_char (cents mod 10)])"

definition formatAmountCellValue :: "string option \<Rightarrow> string" where
  "formatAmountCellValue v =
     (let raw = trim (normalizeEditableCellValue v)
      in if raw = [] then []
         else case parseAmountForFormatting (Some raw) of
                None \<Rightarrow> raw
              | Some parsed \<Rightarrow> toLocaleString2 parsed)"

definition ungrouped :: "string \<Rightarrow> string" where
  \<comment> \<open>\<^verbatim>\<open>s.replaceAll(',', '')\<close>\<close>
  "ungrouped s = filter (\<lambda>c. c \<noteq> CHR '','') s"

section \<open>Rows and the balance check\<close>

record row =
  row_id :: "string option"
  date :: "string option"
  description :: "string option"
  debit :: "string option"
  credit :: "string option"
  balance :: "string option"

definition number_of :: "jsnum \<Rightarrow> number" where
  "number_of p = Finite (fst p) (snd p)"

definition flow_or_zero :: "jsnum option \<Rightarrow> number" where
  \<comment> \<open>\<^verbatim>\<open>Number.isFinite(x) ? x : 0\<close>\<close>
  "flow_or_zero x = (case x of None \<Rightarrow> Finite False 0 | Some n \<Rightarrow> number_of n)"

definition mismatch_step :: "row \<Rightarrow> row \<Rightarrow> string list" where
  \<comment> \<open>one round of the loop of \<^verbatim>\<open>computeBalanceMismatchRowIds\<close>: what it adds to the set.
      The literal \<^verbatim>\<open>0.01\<close> is the double nearest to a hundredth.\<close>
  "mismatch_step prev current =
     (let rowId = trim (str_or (row_id current) [])
      in if rowId = [] then []
         else
           let prevBal = parseAmountForFormatting (balance prev);
               currBal = parseAmountForFormatting (balance current);
               debit = parseAmountForFormatting (debit current);
               credit = parseAmountForFormatting (credit current);
               hasFlow = (debit \<noteq> None \<or> credit \<noteq> None)
           in case (prevBal, currBal) of
                (Some pb, Some cb) \<Rightarrow>
                  if \<not> hasFlow then []
                  else
                    let expected = js_add (js_sub (number_of pb) (flow_or_zero debit)) (flow_or_zero credit)
                    in if js_less (to_number False (1 / 100)) (js_abs (js_sub (number_of cb) expected))
                       then [rowId] else []
              | _ \<Rightarrow> [])"

definition computeBalanceMismatchRowIds :: "row list \<Rightarrow> string set" where
  "computeBalanceMismatchRowIds rows =
     (if length rows < 2 then {}
      else set (concat (map (\<lambda>idx. mismatch_step (rows ! (idx - 1)) (rows ! idx)) [1..<length rows])))"

definition balance_inconsistent :: "row \<Rightarrow> row \<Rightarrow> bool" where
  \<comment> \<open>the condition of the specification on a previous row P and a current row C, every
      amount a double and every operation the one of doubles\<close>
  "balance_inconsistent P C =
     (case (parseAmountForFormatting (balance P), parseAmountForFormatting (balance C)) of
        (Some pb, Some cb) \<Rightarrow>
          (parseAmountForFormatting (debit C) \<noteq> None \<or> parseAmountForFormatting (credit C) \<noteq> None) \<and>
          js_less (to_number False (1 / 100))
            (js_abs (js_sub (number_of cb)
               (js_add (js_sub (number_of pb) (flow_or_zero (parseAmountForFormatting (debit C))))
                       (flow_or_zero (parseAmountForFormatting (credit C))))))
      | _ \<Rightarrow> False)"

definition shown_row_id :: "row \<Rightarrow> string" where
  \<comment> \<open>\<^verbatim>\<open>String(row?.row_id || '').trim()\<close>, the identity under which a row is flagged\<close>
  "shown_row_id r = trim (str_or (row_id r) [])"

definition mk_row :: "string \<Rightarrow> string \<Rightarrow> string \<Rightarrow> string \<Rightarrow> row" where
  \<comment> \<open>a row literal with an id, a debit, a credit and a balance\<close>
  "mk_row i d c b = \<lparr>row_id = Some i, date = None, description = None,
                      debit = Some d, credit = Some c, balance = Some b\<rparr>"

definition bare_row :: "string option \<Rightarrow> string option \<Rightarrow> string \<Rightarrow> row" where
  \<comment> \<open>a row literal without an id: a debit and a credit that may be absent, a balance\<close>
  "bare_row d c b = \<lparr>row_id = None, date = None, description = None,
                      debit = d, credit = c, balance = Some b\<rparr>"

section \<open>The client state\<close>

text \<open>
  A locally cached job record, a status payload of \<^verbatim>\<open>GET /jobs/{id}\<close>, the body of a
  page save response, and the binding of a CRM attachment to the job processing it.
\<close>

record job =
  lj_jobId :: "string option"
  lj_fileName :: "string option"
  lj_sizeBytes :: "rat option"
  lj_lastModified :: "rat option"
  lj_createdAt :: "rat option"
  lj_status :: "string option"
  lj_step :: "string option"
  lj_progress :: "rat option"
  lj_parseMode :: "string option"

record status_payload =
  pl_status :: "string option"
  pl_step :: "string option"
  pl_progress :: "rat option"
  pl_message :: "string option"
  pl_parse_mode :: "string option"

record summary =
  total_transactions :: "nat option"
  other_metrics :: "(string \<times> rat) list"

record save_payload =
  sp_rows :: "row list option"
  sp_summary :: "summary option"

record binding =
  b_jobId :: string
  b_status :: string
  b_step :: string
  b_progress :: rat

datatype request =
    GetJob string
  | PutParsed string string nat "row list"
  | GetCleaned string
  | GetSummary string
  | GetParsed string string
  | PostBeginProcess string

datatype alert =
    SaveFailed string
  | JobFailed string
  | StatusCheckFailed string
  | BeginProcessFailed string

text \<open>
  The fields of \<^verbatim>\<open>state\<close> that the modelled functions read or write, under their own
  names.  Both timers are held by the browser: \<open>pollTimer\<close> says whether the 2000 ms
  interval is set, and \<open>pageSaveTimers\<close> gives, for each page with a pending save, the
  time at which its timeout fires on the virtual clock \<open>now\<close> (in milliseconds), the
  timers in the order in which they were set.  The last fields stand for the page and
  the network: the status texts shown, the summary shown, the requests sent so far (a
  \<open>PutParsed\<close> carries the token its continuation captured), the alerts raised, the
  number of calls of \<^verbatim>\<open>loadResultData\<close> so far and whether the browser was sent to the
  login page.
\<close>

record state =
  jobId :: "string option"
  pages :: "string list"
  parsedByPage :: "(string \<times> row list) list"
  boundsByPage :: "(string \<times> string) list"
  openaiRawByPage :: "(string \<times> string) list"
  currentPage :: "string option"
  selectedRowId :: "string option"
  pollTimer :: bool
  uploadedJobs :: "job list"
  totalParsedRows :: nat
  isCompleted :: bool
  crmProcessByAttachment :: "(string \<times> binding) list"
  crmStatusTimer :: bool
  pageSaveTimers :: "(string \<times> nat) list"
  pageSaveTokenByPage :: "string \<Rightarrow> nat option"
  parsedPanelMode :: string
  currentParseMode :: string
  jobStatusText :: string
  jobStepText :: string
  jobProgressShown :: rat
  summaryShown :: "summary option"
  now :: nat
  requests :: "request list"
  alerts :: "alert list"
  resultLoads :: nat
  redirectedToLogin :: bool

definition js_String :: "string option \<Rightarrow> string" where
  \<comment> \<open>\<^verbatim>\<open>String(v)\<close> of a property that may be absent, and then reads as \<^verbatim>\<open>undefined\<close>\<close>
  "js_String v = (case v of None \<Rightarrow> ''undefined'' | Some s \<Rightarrow> s)"

definition str_of :: "string option \<Rightarrow> string" where
  \<comment> \<open>\<^verbatim>\<open>String(v || '')\<close>\<close>
  "str_of v = str_or v []"

section \<open>The local job cache\<close>

record job_partial =
  pp_jobId :: "string option"
  pp_status :: string
  pp_step :: string
  pp_progress :: rat
  pp_parseMode :: "string option option"

definition merge_partial :: "job \<Rightarrow> job_partial \<Rightarrow> job" where
  \<comment> \<open>\<^verbatim>\<open>{ ...old, ...partial }\<close>; a key that is present overrides, also with no value\<close>
  "merge_partial old partial =
     old\<lparr>lj_jobId := pp_jobId partial,
         lj_status := Some (pp_status partial),
         lj_step := Some (pp_step partial),
         lj_progress := Some (pp_progress partial),
         lj_parseMode := (case pp_parseMode partial of None \<Rightarrow> lj_parseMode old | Some v \<Rightarrow> v)\<rparr>"

fun findIndex :: "('a \<Rightarrow> bool) \<Rightarrow> 'a list \<Rightarrow> nat option" where
  "findIndex P [] = None"
| "findIndex P (x # xs) = (if P x then Some 0 else map_option Suc (findIndex P xs))"

definition updateUploadedJobIfExists :: "job_partial \<Rightarrow> state \<Rightarrow> state" where
  "updateUploadedJobIfExists partial st =
     (let id = trim (str_of (pp_jobId partial))
      in if id = [] then st
         else case findIndex (\<lambda>j. js_String (lj_jobId j) = id) (uploadedJobs st) of
                None \<Rightarrow> st
              | Some idx \<Rightarrow>
                  st\<lparr>uploadedJobs := (uploadedJobs st)[idx := merge_partial (uploadedJobs st ! idx) partial]\<rparr>)"

datatype fetch_result =
    NetworkError
  | HttpResponse nat "status_payload option"

text \<open>
  \<open>HttpResponse code body\<close>: \<open>body\<close> is \<open>None\<close> when \<^verbatim>\<open>res.json()\<close> throws.  The server is
  a function from the job id in the URL to what \<^verbatim>\<open>fetch\<close> gives.
\<close>

definition res_ok :: "nat \<Rightarrow> bool" where
  "res_ok code = (200 \<le> code \<and> code \<le> 299)"

definition merge_status :: "job \<Rightarrow> status_payload \<Rightarrow> job" where
  \<comment> \<open>the object pushed for a successful response\<close>
  "merge_status row payload =
     row\<lparr>lj_status := Some (str_or (pl_status payload) (str_or (lj_status row) ''queued'')),
         lj_step := Some (str_or (pl_step payload) (str_or (lj_step row) [])),
         lj_progress := Some (case pl_progress payload of
                                Some n \<Rightarrow> n
                              | None \<Rightarrow> (case lj_progress row of Some m \<Rightarrow> m | None \<Rightarrow> 0))\<rparr>"

fun reconcile_loop :: "(string \<Rightarrow> fetch_result) \<Rightarrow> job list \<Rightarrow> job list \<Rightarrow> job list option" where
  "reconcile_loop fetch [] next = Some next"
| "reconcile_loop fetch (row # rest) next =
     (let jobId = trim (str_of (lj_jobId row))
      in if jobId = [] then reconcile_loop fetch rest next
         else case fetch jobId of
                NetworkError \<Rightarrow> reconcile_loop fetch rest (next @ [row])
              | HttpResponse code body \<Rightarrow>
                  if code = 401 then None
                  else if code = 404 then reconcile_loop fetch rest next
                  else if \<not> res_ok code then reconcile_loop fetch rest (next @ [row])
                  else case body of
                         None \<Rightarrow> reconcile_loop fetch rest (next @ [row])
                       | Some payload \<Rightarrow> reconcile_loop fetch rest (next @ [merge_status row payload]))"

definition reconcileStoredJobsStatuses :: "(string \<Rightarrow> fetch_result) \<Rightarrow> state \<Rightarrow> state" where
  "reconcileStoredJobsStatuses fetch st =
     (if uploadedJobs st = [] then st
      else case reconcile_loop fetch (take 100 (uploadedJobs st)) [] of
             None \<Rightarrow> st\<lparr>redirectedToLogin := True\<rparr>
           | Some next \<Rightarrow> st\<lparr>uploadedJobs := next\<rparr>)"

definition setStatus :: "status_payload \<Rightarrow> state \<Rightarrow> state" where
  "setStatus payload st =
     (let raw = toLowerCase (str_or (pl_status payload) ''idle'');
          mapped = (if raw = ''done'' then ''completed'' else raw);
          progress = max 0 (min 100 (case pl_progress payload of None \<Rightarrow> 0 | Some n \<Rightarrow> n));
          st1 = st\<lparr>jobStatusText := mapped,
                   jobStepText := str_or (pl_step payload) ''-'',
                   jobProgressShown := progress,
                   isCompleted := (mapped = ''completed''),
                   currentParseMode :=
                     toLowerCase (trim (str_or (pl_parse_mode payload) (currentParseMode st)))\<rparr>;
          st2 = (if mapped = ''idle'' \<and> totalParsedRows st1 = 0
                 then st1\<lparr>summaryShown := None\<rparr> else st1)
      in if truthy (jobId st2)
         then updateUploadedJobIfExists
                \<lparr>pp_jobId = jobId st2,
                 pp_status = str_or (pl_status payload) ''queued'',
                 pp_step = str_or (pl_step payload) ''queued'',
                 pp_progress = (case pl_progress payload of None \<Rightarrow> 0 | Some n \<Rightarrow> n),
                 pp_parseMode = Some (pl_parse_mode payload)\<rparr> st2
         else st2)"

section \<open>The debounced save of page rows\<close>

definition ROW_SAVE_DEBOUNCE_MS :: nat where
  "ROW_SAVE_DEBOUNCE_MS = 220"

definition rows_of :: "state \<Rightarrow> string \<Rightarrow> row list" where
  \<comment> \<open>\<^verbatim>\<open>Array.isArray(state.parsedByPage[page]) ? state.parsedByPage[page] : []\<close>\<close>
  "rows_of st page = (case map_of (parsedByPage st) page of None \<Rightarrow> [] | Some rows \<Rightarrow> rows)"

definition recomputeTotalParsedRows :: "state \<Rightarrow> state" where
  "recomputeTotalParsedRows st =
     st\<lparr>totalParsedRows := sum_list (map (\<lambda>e. length (snd e)) (parsedByPage st))\<rparr>"

definition default_row_id :: "nat \<Rightarrow> row \<Rightarrow> string" where
  \<comment> \<open>\<^verbatim>\<open>String(row?.row_id || '').trim() || String(idx + 1).padStart(3, '0')\<close>\<close>
  "default_row_id idx r =
     (let rowId = trim (str_of (row_id r))
      in if rowId = [] then padStart3 (nat_digits (idx + 1)) else rowId)"

definition assign_row_ids :: "row list \<Rightarrow> row list" where
  \<comment> \<open>the writes \<^verbatim>\<open>row.row_id = rowId\<close> of \<^verbatim>\<open>renderRows\<close>\<close>
  "assign_row_ids rows =
     map (\<lambda>e. (snd e)\<lparr>row_id := Some (default_row_id (fst e) (snd e))\<rparr>) (enumerate 0 rows)"

definition renderRows :: "state \<Rightarrow> state" where
  \<comment> \<open>what \<^verbatim>\<open>renderRows\<close> does to the state; the table it builds is not modelled\<close>
  "renderRows st =
     (case currentPage st of
        None \<Rightarrow> st
      | Some page \<Rightarrow>
          if page = [] then st
          else (recomputeTotalParsedRows st)
                 \<lparr>parsedByPage := AList.map_entry page assign_row_ids (parsedByPage st)\<rparr>)"

definition payload_row :: "nat \<Rightarrow> row \<Rightarrow> row" where
  "payload_row idx r =
     \<lparr>row_id = Some (default_row_id idx r),
      date = Some (trim (normalizeEditableCellValue (date r))),
      description = Some (trim (normalizeEditableCellValue (description r))),
      debit = Some (formatAmountCellValue (debit r)),
      credit = Some (formatAmountCellValue (credit r)),
      balance = Some (formatAmountCellValue (balance r))\<rparr>"

definition token_of :: "state \<Rightarrow> string \<Rightarrow> nat" where
  \<comment> \<open>\<^verbatim>\<open>state.pageSaveTokenByPage[pageName] || 0\<close>\<close>
  "token_of st pageName = (case pageSaveTokenByPage st pageName of None \<Rightarrow> 0 | Some t \<Rightarrow> t)"

definition persistPageRows_send :: "string \<Rightarrow> state \<Rightarrow> state" where
  \<comment> \<open>\<^verbatim>\<open>persistPageRows\<close> up to its \<^verbatim>\<open>await\<close>: the request leaves with the new token\<close>
  "persistPageRows_send page st =
     (let pageName = trim page
      in case jobId st of
           None \<Rightarrow> st
         | Some jid \<Rightarrow>
             if jid = [] \<or> pageName = [] then st
             else
               let sourceRows = rows_of st pageName;
                   payloadRows = map (\<lambda>e. payload_row (fst e) (snd e)) (enumerate 0 sourceRows);
                   token = token_of st pageName + 1
               in st\<lparr>pageSaveTokenByPage := (pageSaveTokenByPage st)(pageName \<mapsto> token),
                      requests := requests st @ [PutParsed jid pageName token payloadRows]\<rparr>)"

definition id_or_index :: "string option \<Rightarrow> nat \<Rightarrow> string" where
  \<comment> \<open>\<^verbatim>\<open>String(row?.row_id || idx + 1)\<close>\<close>
  "id_or_index v idx = (case v of None \<Rightarrow> nat_digits (idx + 1)
                         | Some s \<Rightarrow> if s = [] then nat_digits (idx + 1) else s)"

definition sameShape :: "row list \<Rightarrow> row list \<Rightarrow> bool" where
  "sameShape existingRows prows =
     (length existingRows = length prows \<and>
      list_all (\<lambda>idx. id_or_index (row_id (existingRows ! idx)) idx = id_or_index (row_id (prows ! idx)) idx)
        [0..<length existingRows])"

definition copy_fields :: "row \<Rightarrow> row \<Rightarrow> row" where
  \<comment> \<open>the body of the loop that copies a response row \<open>src\<close> into the existing row\<close>
  "copy_fields existing src =
     existing\<lparr>row_id := Some (trim (str_or (row_id src) (str_of (row_id existing)))),
              date := Some (trim (normalizeEditableCellValue (date src))),
              description := Some (trim (normalizeEditableCellValue (description src))),
              debit := Some (formatAmountCellValue (debit src)),
              credit := Some (formatAmountCellValue (credit src)),
              balance := Some (formatAmountCellValue (balance src))\<rparr>"

definition apply_rows :: "string \<Rightarrow> row list \<Rightarrow> state \<Rightarrow> state" where
  \<comment> \<open>the branch \<^verbatim>\<open>if (payload && Array.isArray(payload.rows))\<close>.  When the rows are
      replaced on the current page, \<^verbatim>\<open>renderRows\<close> writes row ids into the very objects of
      \<^verbatim>\<open>payload.rows\<close>, so the selection is checked against the rows as stored.\<close>
  "apply_rows pageName prows st =
     (let existingRows = rows_of st pageName;
          same = sameShape existingRows prows;
          st1 = (if same
                 then st\<lparr>parsedByPage :=
                           AList.map_entry pageName (\<lambda>_. map2 copy_fields existingRows prows)
                             (parsedByPage st)\<rparr>
                 else
                   let st0 = st\<lparr>parsedByPage := AList.update pageName prows (parsedByPage st)\<rparr>
                   in if currentPage st0 = Some pageName then renderRows st0 else st0);
          checked = (if same then prows else rows_of st1 pageName)
      in case selectedRowId st1 of
           None \<Rightarrow> st1
         | Some sel \<Rightarrow>
             if sel \<noteq> [] \<and> \<not> list_ex (\<lambda>r. str_of (row_id r) = sel) checked
             then st1\<lparr>selectedRowId := None\<rparr> else st1)"

definition persistPageRows_receive :: "string \<Rightarrow> nat \<Rightarrow> save_payload \<Rightarrow> state \<Rightarrow> state" where
  \<comment> \<open>\<^verbatim>\<open>persistPageRows\<close> after its \<^verbatim>\<open>await\<close>, for the request of page \<open>pageName\<close> that
      captured \<open>token\<close> and was answered with \<open>payload\<close>\<close>
  "persistPageRows_receive pageName token payload st =
     (if pageSaveTokenByPage st pageName \<noteq> Some token then st
      else
        let st1 = (case sp_rows payload of None \<Rightarrow> st | Some prows \<Rightarrow> apply_rows pageName prows st);
            st2 = recomputeTotalParsedRows st1
        in case sp_summary payload of
             None \<Rightarrow> st2
           | Some s \<Rightarrow> st2\<lparr>summaryShown := Some s\<rparr>)"

definition persistPageRows_failed :: "string \<Rightarrow> state \<Rightarrow> state" where
  \<comment> \<open>the \<^verbatim>\<open>catch\<close> of the debounced save, for a request that failed with \<open>msg\<close>\<close>
  "persistPageRows_failed msg st = st\<lparr>alerts := alerts st @ [SaveFailed msg]\<rparr>"

definition queuePageRowsSave :: "string \<Rightarrow> state \<Rightarrow> state" where
  \<comment> \<open>\<^verbatim>\<open>clearTimeout\<close> of the page's pending timer, if any, then \<^verbatim>\<open>setTimeout\<close>\<close>
  "queuePageRowsSave page st =
     (let pageName = trim page
      in if pageName = [] \<or> \<not> truthy (jobId st) then st
         else st\<lparr>pageSaveTimers :=
                   AList.delete pageName (pageSaveTimers st) @ [(pageName, now st + ROW_SAVE_DEBOUNCE_MS)]\<rparr>)"

definition timer_fire :: "string \<Rightarrow> state \<Rightarrow> state" where
  \<comment> \<open>the callback given to \<^verbatim>\<open>setTimeout\<close>\<close>
  "timer_fire pageName st =
     persistPageRows_send pageName (st\<lparr>pageSaveTimers := AList.delete pageName (pageSaveTimers st)\<rparr>)"

definition due_timers :: "nat \<Rightarrow> state \<Rightarrow> string list" where
  \<comment> \<open>the pages whose timeout has expired at time \<open>t\<close>, earliest first\<close>
  "due_timers t st = map fst (sort_key snd (filter (\<lambda>e. snd e \<le> t) (pageSaveTimers st)))"

definition advance :: "nat \<Rightarrow> state \<Rightarrow> state" where
  \<comment> \<open>\<open>dt\<close> milliseconds pass: the browser runs the callbacks of the expired timeouts\<close>
  "advance dt st = (fold timer_fire (due_timers (now st + dt) st) st)\<lparr>now := now st + dt\<rparr>"

definition flushPendingPageSaves :: "state \<Rightarrow> state" where
  \<comment> \<open>up to its \<^verbatim>\<open>await\<close>: the pending timers are cleared and their saves sent (here
      in the order of the timers, in the source in the order of the keys of the object)\<close>
  "flushPendingPageSaves st =
     (let pendingPages = map fst (pageSaveTimers st)
      in if pendingPages = [] then st
         else fold persistPageRows_send pendingPages (st\<lparr>pageSaveTimers := []\<rparr>))"

definition reverseCurrentPageRows :: "state \<Rightarrow> state" where
  "reverseCurrentPageRows st =
     (let page = trim (str_of (currentPage st))
      in if page = [] then st
         else
           let rows = rows_of st page
           in if length rows < 2 then st
              else queuePageRowsSave page
                     (renderRows (st\<lparr>parsedByPage := AList.update page (rev rows) (parsedByPage st)\<rparr>)))"

fun is_save_of :: "string \<Rightarrow> request \<Rightarrow> bool" where
  "is_save_of pageName (PutParsed _ p _ _) = (p = pageName)"
| "is_save_of pageName _ = False"

definition saves_of :: "string \<Rightarrow> state \<Rightarrow> request list" where
  \<comment> \<open>the save requests sent so far for a page\<close>
  "saves_of pageName st = filter (is_save_of pageName) (requests st)"

datatype field = Date | Description | Debit | Credit | Balance

definition set_field :: "field \<Rightarrow> string \<Rightarrow> row \<Rightarrow> row" where
  \<comment> \<open>\<^verbatim>\<open>row[field] = value\<close>\<close>
  "set_field f v r =
     (case f of
        Date \<Rightarrow> r\<lparr>date := Some v\<rparr>
      | Description \<Rightarrow> r\<lparr>description := Some v\<rparr>
      | Debit \<Rightarrow> r\<lparr>debit := Some v\<rparr>
      | Credit \<Rightarrow> r\<lparr>credit := Some v\<rparr>
      | Balance \<Rightarrow> r\<lparr>balance := Some v\<rparr>)"

definition input_event :: "string \<Rightarrow> nat \<times> field \<times> string \<Rightarrow> state \<Rightarrow> state" where
  \<comment> \<open>the \<^verbatim>\<open>input\<close> listener of the cell \<open>f\<close> of row \<open>idx\<close>, rendered for \<open>page\<close>, typing \<open>v\<close>\<close>
  "input_event page e st =
     (case e of (idx, f, v) \<Rightarrow>
        queuePageRowsSave page
          (st\<lparr>parsedByPage :=
                AList.map_entry page
                  (\<lambda>rows. if idx < length rows then rows[idx := set_field f v (rows ! idx)] else rows)
                  (parsedByPage st)\<rparr>))"

fun edits :: "string \<Rightarrow> nat \<times> field \<times> string \<Rightarrow> (nat \<times> nat \<times> field \<times> string) list \<Rightarrow> state \<Rightarrow> state" where
  \<comment> \<open>an edit of a page, then further edits, each after the given pause\<close>
  "edits page e [] st = input_event page e st"
| "edits page e ((gap, e') # rest) st = edits page e' rest (advance gap (input_event page e st))"

section \<open>The job poll loop\<close>

definition stopPolling :: "state \<Rightarrow> state" where
  "stopPolling st = st\<lparr>pollTimer := False\<rparr>"

definition strip_png :: "string \<Rightarrow> string" where
  \<comment> \<open>\<^verbatim>\<open>name.replace(/\.png$/i, '')\<close>\<close>
  "strip_png name =
     (if 4 \<le> length name \<and> toLowerCase (drop (length name - 4) name) = ''.png''
      then take (length name - 4) name else name)"

definition loadResultData :: "state \<Rightarrow> state" where
  \<comment> \<open>the call, up to the first \<^verbatim>\<open>await\<close>: pending saves are flushed\<close>
  "loadResultData st = flushPendingPageSaves (st\<lparr>resultLoads := resultLoads st + 1\<rparr>)"

definition loadResultData_fetch :: "state \<Rightarrow> state" where
  \<comment> \<open>once the flushed saves have settled: the two requests are sent together\<close>
  "loadResultData_fetch st =
     (case jobId st of
        None \<Rightarrow> st
      | Some jid \<Rightarrow>
          if jid = [] then st
          else st\<lparr>requests := requests st @ [GetCleaned jid, GetSummary jid]\<rparr>)"

definition loadCurrentPageData :: "state \<Rightarrow> state" where
  \<comment> \<open>up to its first \<^verbatim>\<open>await\<close>: the rows of the current page are asked for\<close>
  "loadCurrentPageData st =
     (case (jobId st, currentPage st) of
        (Some jid, Some page) \<Rightarrow>
          if jid = [] \<or> page = [] then st
          else if map_of (parsedByPage st) page = None
               then st\<lparr>requests := requests st @ [GetParsed jid page]\<rparr>
               else st
      | _ \<Rightarrow> st)"

definition loadResultData_apply :: "string option list \<Rightarrow> summary option \<Rightarrow> state \<Rightarrow> state" where
  \<comment> \<open>once both answers are there: \<open>cleaned\<close> is \<^verbatim>\<open>cleaned.pages || []\<close>\<close>
  "loadResultData_apply cleaned summ st =
     (let pages = sort (filter (\<lambda>n. n \<noteq> []) (map (\<lambda>name. strip_png (str_of name)) cleaned));
          total = (case summ of None \<Rightarrow> 0
                   | Some s \<Rightarrow> (case total_transactions s of None \<Rightarrow> 0 | Some n \<Rightarrow> n));
          st1 = st\<lparr>pages := pages,
                   currentPage := (case pages of [] \<Rightarrow> None | p # _ \<Rightarrow> Some p),
                   parsedByPage := [],
                   boundsByPage := [],
                   openaiRawByPage := [],
                   totalParsedRows := total,
                   summaryShown := (if 0 < total then summ else None)\<rparr>
      in loadCurrentPageData st1)"

definition pollStatus_failed :: "string \<Rightarrow> state \<Rightarrow> state" where
  \<comment> \<open>the \<^verbatim>\<open>catch\<close> of \<^verbatim>\<open>pollStatus\<close>, for the status request or the loading of results\<close>
  "pollStatus_failed msg st = (stopPolling st)\<lparr>alerts := alerts st @ [StatusCheckFailed msg]\<rparr>"

definition pollStatus :: "state \<Rightarrow> state" where
  \<comment> \<open>the call, up to its \<^verbatim>\<open>await\<close>: the status request leaves\<close>
  "pollStatus st =
     (case jobId st of
        None \<Rightarrow> st
      | Some jid \<Rightarrow> if jid = [] then st else st\<lparr>requests := requests st @ [GetJob jid]\<rparr>)"

definition pollStatus_response :: "string + status_payload \<Rightarrow> state \<Rightarrow> state" where
  \<comment> \<open>\<^verbatim>\<open>pollStatus\<close> after its \<^verbatim>\<open>await\<close>: \<open>Inl msg\<close> when \<^verbatim>\<open>api\<close> throws\<close>
  "pollStatus_response result st =
     (case result of
        Inl msg \<Rightarrow> pollStatus_failed msg st
      | Inr payload \<Rightarrow>
          let st1 = setStatus payload st;
              status = toLowerCase (str_of (pl_status payload))
          in if status = ''done'' then loadResultData (stopPolling st1)
             else if status = ''failed''
             then (stopPolling st1)
                    \<lparr>alerts := alerts st1 @ [JobFailed (str_or (pl_message payload) ''unknown error'')]\<rparr>
             else st1)"

definition poll_tick :: "state \<Rightarrow> state" where
  \<comment> \<open>2000 ms have passed: the browser calls \<^verbatim>\<open>pollStatus\<close> if the interval is set\<close>
  "poll_tick st = (if pollTimer st then pollStatus st else st)"


definition setActiveJob :: "state \<Rightarrow> state" where
  \<comment> \<open>the call, up to the first \<^verbatim>\<open>await\<close>\<close>
  "setActiveJob st = flushPendingPageSaves st"



datatype event =
    PollTick
  | PollResponse "string + status_payload"
  | LoadFetch
  | LoadApply "string option list" "summary option"
  | LoadFailed string
  | Input string "nat \<times> field \<times> string"
  | ReverseRows
  | Advance nat
  | SaveResponse string nat save_payload
  | SaveFailure string

text \<open>
  What happens on the page once a job is open, short of opening a job again: the poll
  interval fires, an answer of the server arrives, a continuation of the result load
  runs, the user edits a cell or reverses the rows, time passes.
\<close>

fun step :: "event \<Rightarrow> state \<Rightarrow> state" where
  "step PollTick st = poll_tick st"
| "step (PollResponse r) st = pollStatus_response r st"
| "step LoadFetch st = loadResultData_fetch st"
| "step (LoadApply cleaned summ) st = loadResultData_apply cleaned summ st"
| "step (LoadFailed msg) st = pollStatus_failed msg st"
| "step (Input page e) st = input_event page e st"
| "step ReverseRows st = reverseCurrentPageRows st"
| "step (Advance dt) st = advance dt st"
| "step (SaveResponse pageName token payload) st = persistPageRows_receive pageName token payload st"
| "step (SaveFailure msg) st = persistPageRows_failed msg st"

definition run :: "event list \<Rightarrow> state \<Rightarrow> state" where
  "run evs st = fold step evs st"

fun is_poll :: "request \<Rightarrow> bool" where
  "is_poll (GetJob _) = True"
| "is_poll _ = False"






section \<open>Beginning the processing of a CRM attachment\<close>

record button =
  disabled :: bool
  textContent :: string

definition starting_label :: string where
  \<comment> \<open>\<^verbatim>\<open>'Starting'\<close> followed by an ellipsis (U+2026, here in UTF-8)\<close>
  "starting_label = ''Starting'' @ [CHR 0xE2, CHR 0x80, CHR 0xA6]"

definition priorLabel :: "button \<Rightarrow> string" where
  \<comment> \<open>\<^verbatim>\<open>btn.textContent || 'Begin Process'\<close>\<close>
  "priorLabel btn = str_or (Some (textContent btn)) ''Begin Process''"

definition begin_process_click :: "string \<Rightarrow> button \<Rightarrow> state \<Rightarrow> state \<times> button" where
  \<comment> \<open>the click on a button with \<^verbatim>\<open>data-process-attachment-id\<close>, up to the request\<close>
  "begin_process_click attr btn st =
     (let attachmentId = trim attr
      in if attachmentId = [] then (st, btn)
         else (st\<lparr>requests := requests st @ [PostBeginProcess attachmentId]\<rparr>,
               btn\<lparr>disabled := True, textContent := starting_label\<rparr>))"

definition begin_process_failed :: "string \<Rightarrow> string \<Rightarrow> button \<Rightarrow> state \<Rightarrow> state \<times> button" where
  \<comment> \<open>the \<^verbatim>\<open>catch\<close> of the click handler; \<open>prior\<close> is the label captured at the click\<close>
  "begin_process_failed msg prior btn st =
     (st\<lparr>alerts := alerts st @ [BeginProcessFailed msg]\<rparr>,
      btn\<lparr>disabled := False, textContent := prior\<rparr>)"

definition begin_process_response ::
  "string \<Rightarrow> string \<Rightarrow> string + string option \<Rightarrow> button \<Rightarrow> state \<Rightarrow> state \<times> button" where
  \<comment> \<open>the answer to the request for \<open>attachmentId\<close>: \<open>Inl msg\<close> when \<^verbatim>\<open>api\<close> throws,
      \<open>Inr job_id\<close> with the \<^verbatim>\<open>job_id\<close> of the payload otherwise\<close>
  "begin_process_response attachmentId prior result btn st =
     (case result of
        Inl msg \<Rightarrow> begin_process_failed msg prior btn st
      | Inr job_id \<Rightarrow>
          let job = trim (str_of job_id)
          in if job = [] then begin_process_failed ''missing_job_id'' prior btn st
             else (setActiveJob
                     (st\<lparr>crmProcessByAttachment :=
                           AList.update attachmentId
                             \<lparr>b_jobId = job, b_status = ''queued'', b_step = ''queued'', b_progress = 0\<rparr>
                             (crmProcessByAttachment st),
                         crmStatusTimer := True\<rparr>),
                   btn))"

definition state0 :: state where
  \<comment> \<open>the initial value of \<^verbatim>\<open>state\<close>, with an empty job cache\<close>
  "state0 =
     \<lparr>jobId = None, pages = [], parsedByPage = [], boundsByPage = [], openaiRawByPage = [],
      currentPage = None, selectedRowId = None, pollTimer = False, uploadedJobs = [],
      totalParsedRows = 0, isCompleted = False, crmProcessByAttachment = [],
      crmStatusTimer = False, pageSaveTimers = [], pageSaveTokenByPage = Map.empty,
      parsedPanelMode = ''table'', currentParseMode = [], jobStatusText = [], jobStepText = [],
      jobProgressShown = 0, summaryShown = None, now = 0, requests = [], alerts = [],
      resultLoads = 0, redirectedToLogin = False\<rparr>"

section \<open>Example data\<close>

definition job_a :: job where
  "job_a = \<lparr>lj_jobId = Some ''a'', lj_fileName = Some ''a.pdf'', lj_sizeBytes = None,
            lj_lastModified = None, lj_createdAt = None, lj_status = Some ''processing'',
            lj_step = Some ''ocr'', lj_progress = Some 40, lj_parseMode = Some ''ocr''\<rparr>"

definition job_b :: job where
  "job_b = \<lparr>lj_jobId = Some ''b'', lj_fileName = Some ''b.pdf'', lj_sizeBytes = None,
            lj_lastModified = None, lj_createdAt = None, lj_status = Some ''queued'',
            lj_step = Some ''queued'', lj_progress = Some 0, lj_parseMode = None\<rparr>"


definition status_only :: "string \<Rightarrow> status_payload" where
  \<comment> \<open>a status payload with a status and a progress of 40\<close>
  "status_only s = \<lparr>pl_status = Some s, pl_step = Some ''step'', pl_progress = Some 40,
                    pl_message = None, pl_parse_mode = None\<rparr>"

definition state_a :: state where
  \<comment> \<open>job \<open>a\<close> is open and cached\<close>
  "state_a = state0\<lparr>jobId := Some ''a'', uploadedJobs := [job_a]\<rparr>"

definition job_c :: job where
  "job_c = \<lparr>lj_jobId = Some ''c'', lj_fileName = Some ''c.pdf'', lj_sizeBytes = Some 2048,
            lj_lastModified = None, lj_createdAt = None, lj_status = Some ''queued'',
            lj_step = None, lj_progress = None, lj_parseMode = Some ''text''\<rparr>"

definition fetch_demo :: "string \<Rightarrow> fetch_result" where
  \<comment> \<open>job \<open>a\<close> is gone, the request for \<open>b\<close> fails with 503, job \<open>c\<close> is at 40 percent\<close>
  "fetch_demo jid =
     (if jid = ''a'' then HttpResponse 404 None
      else if jid = ''b'' then HttpResponse 503 None
      else HttpResponse 200 (Some (status_only ''processing'')))"

definition begin_button :: button where
  "begin_button = \<lparr>disabled = False, textContent = ''Begin Process''\<rparr>"


definition state_p1 :: state where
  \<comment> \<open>job \<open>a\<close> is open on its page \<open>p1\<close> of two rows\<close>
  "state_p1 = state_a\<lparr>pages := [''p1''], currentPage := Some ''p1'',
       parsedByPage := [(''p1'', [mk_row ''001'' ''20'' [] ''80'', mk_row ''002'' [] ''5'' ''85''])]\<rparr>"

definition response_a :: save_payload where
  "response_a = \<lparr>sp_rows = Some [mk_row ''009'' ''1.00'' [] ''1.00'', mk_row ''010'' [] [] []], sp_summary = None\<rparr>"

definition response_b :: save_payload where
  "response_b = \<lparr>sp_rows = Some [mk_row ''001'' ''20.00'' [] ''80.00''], sp_summary = None\<rparr>"

definition fetch_abort :: "string \<Rightarrow> fetch_result" where
  \<comment> \<open>job \<open>a\<close> is gone and every other request is answered with 401\<close>
  "fetch_abort jid = (if jid = ''a'' then HttpResponse 404 None else HttpResponse 401 None)"

definition note_row :: "string \<Rightarrow> row" where
  \<comment> \<open>a row literal with the id \<open>001\<close>, a description and empty cells\<close>
  "note_row d = \<lparr>row_id = Some ''001'', date = Some [], description = Some d,
                  debit = Some [], credit = Some [], balance = Some []\<rparr>"

definition state_rent :: state where
  \<comment> \<open>job \<open>a\<close> is open on its page \<open>p1\<close> of one row, described as rent\<close>
  "state_rent = state_a\<lparr>pages := [''p1''], currentPage := Some ''p1'',
       parsedByPage := [(''p1'', [note_row ''rent''])]\<rparr>"

definition response_rent :: save_payload where
  \<comment> \<open>the answer to the save of \<open>state_rent\<close>\<close>
  "response_rent = \<lparr>sp_rows = Some [note_row ''rent''], sp_summary = None\<rparr>"

section \<open>Notions used in the statements\<close>

definition reconciled :: "(string \<Rightarrow> fetch_result) \<Rightarrow> job \<Rightarrow> job list" where
  \<comment> \<open>what the specification lets one cached record become: nothing after a 404, itself after
      another failure, the merged record after a success; a record without a job id is dropped\<close>
  "reconciled fetch r =
     (let jid = trim (str_of (lj_jobId r))
      in if jid = [] then []
         else case fetch jid of
                NetworkError \<Rightarrow> [r]
              | HttpResponse code body \<Rightarrow>
                  if code = 404 then []
                  else if res_ok code then (case body of None \<Rightarrow> [r] | Some payload \<Rightarrow> [merge_status r payload])
                  else [r])"

definition unauthorized :: "(string \<Rightarrow> fetch_result) \<Rightarrow> job \<Rightarrow> bool" where
  \<comment> \<open>the status request for this record is answered with 401\<close>
  "unauthorized fetch r =
     (let jid = trim (str_of (lj_jobId r))
      in jid \<noteq> [] \<and> (case fetch jid of NetworkError \<Rightarrow> False | HttpResponse code _ \<Rightarrow> code = 401))"

definition keys_trimmed :: "state \<Rightarrow> bool" where
  \<comment> \<open>the pending timers are filed under trimmed page names, as \<^verbatim>\<open>queuePageRowsSave\<close> files them\<close>
  "keys_trimmed st = list_all (\<lambda>e. trim (fst e) = fst e) (pageSaveTimers st)"

definition pending :: "string \<Rightarrow> nat \<Rightarrow> state \<Rightarrow> bool" where
  \<comment> \<open>page \<open>q\<close> has exactly one timer, due at \<open>dl\<close>\<close>
  "pending q dl st = (filter (\<lambda>e. fst e = q) (pageSaveTimers st) = [(q, dl)])"

definition row_id_ok :: "row \<Rightarrow> bool" where
  \<comment> \<open>the row has a \<^verbatim>\<open>row_id\<close> that is not empty and is trimmed, as after \<^verbatim>\<open>renderRows\<close>\<close>
  "row_id_ok r = (case row_id r of None \<Rightarrow> False | Some s \<Rightarrow> s \<noteq> [] \<and> trim s = s)"

definition cells :: "row \<Rightarrow> row" where
  \<comment> \<open>a row without regard to its \<^verbatim>\<open>row_id\<close>\<close>
  "cells r = r\<lparr>row_id := None\<rparr>"

definition rendered :: "string \<Rightarrow> string \<Rightarrow> row list \<Rightarrow> row list" where
  \<comment> \<open>the rows of page \<open>p\<close> after \<^verbatim>\<open>renderRows\<close> with current page \<open>c\<close>\<close>
  "rendered c p xs = (if c = p then assign_row_ids xs else xs)"

definition shows_response :: "row list \<Rightarrow> row list \<Rightarrow> row list \<Rightarrow> bool" where
  \<comment> \<open>the rows \<open>after\<close> of a page are those of a response \<open>prows\<close> that arrived when the page
      held \<open>before\<close>: where the identities align, every cell is the cell of the response,
      trimmed or formatted as an amount; otherwise the rows are the rows of the response,
      but for the row ids they may be given\<close>
  "shows_response before prows after =
     (length after = length prows \<and>
      list_all
        (\<lambda>i. if sameShape before prows
             then row_id (after ! i) = Some (trim (str_or (row_id (prows ! i)) (str_of (row_id (before ! i))))) \<and>
                  date (after ! i) = Some (trim (normalizeEditableCellValue (date (prows ! i)))) \<and>
                  description (after ! i) = Some (trim (normalizeEditableCellValue (description (prows ! i)))) \<and>
                  debit (after ! i) = Some (formatAmountCellValue (debit (prows ! i))) \<and>
                  credit (after ! i) = Some (formatAmountCellValue (credit (prows ! i))) \<and>
                  balance (after ! i) = Some (formatAmountCellValue (balance (prows ! i)))
             else cells (after ! i) = cells (prows ! i))
        [0..<length prows])"

fun groups3 :: "string \<Rightarrow> bool" where
  \<comment> \<open>integer digits with a comma before every group of three, read from the right\<close>
  "groups3 [] = False"
| "groups3 [a] = is_digit a"
| "groups3 [a, b] = (is_digit a \<and> is_digit b)"
| "groups3 [a, b, c] = (is_digit a \<and> is_digit b \<and> is_digit c)"
| "groups3 (a # b # c # d # rest) =
     (is_digit a \<and> is_digit b \<and> is_digit c \<and> d = CHR '','' \<and> groups3 rest)"

definition two_decimal_grouped :: "string \<Rightarrow> bool" where
  \<comment> \<open>an optional minus sign, integer digits in comma-separated groups of three, a dot
      and two fraction digits\<close>
  "two_decimal_grouped s =
     (let body = (if s \<noteq> [] \<and> hd s = CHR ''-'' then tl s else s);
          n = length body
      in 4 \<le> n \<and> is_digit (body ! (n - 1)) \<and> is_digit (body ! (n - 2)) \<and> body ! (n - 3) = CHR ''.'' \<and>
         groups3 (rev (take (n - 3) body)))"

section \<open>Properties\<close>

subsection \<open>Rounding to doubles\<close>

lemma pow2_powi: "pow2 e = 2 powi e"
  by (simp add: pow2_def power_int_def inverse_eq_divide power_one_over)

lemma pow2_pos [simp]: "0 < pow2 e"
  by (simp add: pow2_def)

lemma pow2_add: "pow2 (a + b) = pow2 a * pow2 b"
  by (simp add: pow2_powi power_int_add)

lemma pow2_diff: "pow2 (a - b) = pow2 a / pow2 b"
  by (simp add: pow2_powi power_int_diff)

lemma pow2_strict_mono: "a < b \<Longrightarrow> pow2 a < pow2 b"
  by (simp add: pow2_powi power_int_strict_increasing)

lemma pow2_less_iff [simp]: "pow2 a < pow2 b \<longleftrightarrow> a < b"
proof
  assume "pow2 a < pow2 b"
  show "a < b"
  proof (rule ccontr)
    assume "\<not> a < b"
    then have "b = a \<or> b < a" by auto
    then have "pow2 b \<le> pow2 a" using pow2_strict_mono[of b a] by auto
    with \<open>pow2 a < pow2 b\<close> show False by simp
  qed
qed (rule pow2_strict_mono)

lemma pow2_le_iff [simp]: "pow2 a \<le> pow2 b \<longleftrightarrow> a \<le> b"
  using pow2_less_iff[of b a] by (auto simp: not_less[symmetric] simp del: pow2_less_iff)

lemma pow2_nat: "0 \<le> e \<Longrightarrow> pow2 e = 2 ^ nat e"
  by (simp add: pow2_def)

lemma pow2_Suc: "pow2 (e + 1) = 2 * pow2 e"
  by (simp add: pow2_add) (simp add: pow2_def)

lemma floor_log2_bounds:
  assumes "0 < x"
  shows "pow2 (floor_log2 x) \<le> x" and "x < pow2 (floor_log2 x + 1)"
proof -
  have "pow2 (floor_log2 x) \<le> x \<and> x < pow2 (floor_log2 x + 1)"
  proof (cases "1 \<le> x")
    case True
    define n where "n = \<lfloor>x\<rfloor>"
    have n: "0 < n" using True by (simp add: n_def)
    from bitlen_bounds[OF n] have b: "2 ^ nat (bitlen n - 1) \<le> n" "n < 2 ^ nat (bitlen n)" by simp_all
    have b1: "1 \<le> bitlen n" using n by (simp add: bitlen_alt_def)
    have fl: "floor_log2 x = bitlen n - 1" using True by (simp add: floor_log2_def n_def)
    have "pow2 (bitlen n - 1) = 2 ^ nat (bitlen n - 1)" using b1 by (simp add: pow2_nat)
    also have "\<dots> \<le> of_int n" using b(1) by simp
    also have "\<dots> \<le> x" by (simp add: n_def)
    finally have lo: "pow2 (floor_log2 x) \<le> x" using fl by simp
    have "n + 1 \<le> 2 ^ nat (bitlen n)" using b(2) by simp
    then have "(of_int (n + 1) :: rat) \<le> 2 ^ nat (bitlen n)" by (simp del: of_int_add)
    moreover have "x < of_int (n + 1)" unfolding n_def by linarith
    ultimately have "x < 2 ^ nat (bitlen n)" by linarith
    also have "\<dots> = pow2 (bitlen n)" using b1 by (simp add: pow2_nat)
    finally have "x < pow2 (floor_log2 x + 1)" using fl by simp
    with lo show ?thesis by simp
  next
    case False
    define y where "y = 1 / x"
    define c where "c = \<lceil>y\<rceil>"
    have y: "1 < y" using False assms by (simp add: y_def)
    then have c: "2 \<le> c" unfolding c_def by (simp add: le_ceiling_iff)
    define b where "b = bitlen (c - 1)"
    have c1: "0 < c - 1" using c by simp
    from bitlen_bounds[OF c1] have bb: "2 ^ nat (b - 1) \<le> c - 1" "c - 1 < 2 ^ nat b" by (simp_all add: b_def)
    have b1: "1 \<le> b" using c1 by (simp add: b_def bitlen_alt_def)
    have fl: "floor_log2 x = - b" using False by (simp add: floor_log2_def b_def c_def y_def)
    have "c \<le> 2 ^ nat b" using bb(2) by simp
    then have "(of_int c :: rat) \<le> 2 ^ nat b" by simp
    moreover have "y \<le> of_int c" by (simp add: c_def)
    ultimately have yb: "y \<le> 2 ^ nat b" by linarith
    have "pow2 (- b) = 1 / 2 ^ nat b" using b1 by (simp add: pow2_def)
    also have "\<dots> \<le> 1 / y" using yb y by (simp add: frac_le)
    also have "\<dots> = x" by (simp add: y_def)
    finally have lo: "pow2 (floor_log2 x) \<le> x" using fl by simp
    have "(2 :: rat) ^ nat (b - 1) \<le> of_int (c - 1)" using bb(1) by (simp del: of_int_diff)
    moreover have "of_int (c - 1) < y" unfolding c_def by linarith
    ultimately have yl: "2 ^ nat (b - 1) < y" by linarith
    have "x = 1 / y" by (simp add: y_def)
    also have "\<dots> < 1 / 2 ^ nat (b - 1)" using yl by (simp add: frac_less2)
    also have "\<dots> = pow2 (- b + 1)"
    proof (cases "b = 1")
      case True
      then show ?thesis by (simp add: pow2_def)
    next
      case False
      with b1 have "- b + 1 < 0" by simp
      moreover have "nat (- (- b + 1)) = nat (b - 1)" by simp
      ultimately show ?thesis by (simp add: pow2_def)
    qed
    finally have "x < pow2 (floor_log2 x + 1)" using fl by simp
    with lo show ?thesis by simp
  qed
  then show "pow2 (floor_log2 x) \<le> x" and "x < pow2 (floor_log2 x + 1)" by simp_all
qed

lemma floor_log2_unique:
  assumes "pow2 e \<le> x" "x < pow2 (e + 1)"
  shows "floor_log2 x = e"
proof -
  have x: "0 < x" using assms(1) pow2_pos[of e] by linarith
  note b = floor_log2_bounds[OF x]
  have "pow2 (floor_log2 x) < pow2 (e + 1)" using b(1) assms(2) by linarith
  then have 1: "floor_log2 x < e + 1" by simp
  have "pow2 e < pow2 (floor_log2 x + 1)" using b(2) assms(1) by linarith
  then have "e < floor_log2 x + 1" by simp
  with 1 show ?thesis by simp
qed

lemma floor_log2_mono:
  assumes "0 < x" "x \<le> y"
  shows "floor_log2 x \<le> floor_log2 y"
proof -
  have y: "0 < y" using assms by simp
  have "pow2 (floor_log2 x) < pow2 (floor_log2 y + 1)"
    using floor_log2_bounds(1)[OF assms(1)] floor_log2_bounds(2)[OF y] assms(2) by linarith
  then show ?thesis by simp
qed

lemma floor_log2_less:
  assumes "0 < x" "x < pow2 e"
  shows "floor_log2 x < e"
proof -
  have "pow2 (floor_log2 x) < pow2 e" using floor_log2_bounds(1)[OF assms(1)] assms(2) by linarith
  then show ?thesis by simp
qed

lemma floor_log2_ge:
  assumes "pow2 e \<le> x"
  shows "e \<le> floor_log2 x"
proof -
  have x: "0 < x" using assms pow2_pos[of e] by linarith
  have "pow2 e < pow2 (floor_log2 x + 1)" using floor_log2_bounds(2)[OF x] assms by linarith
  then show ?thesis by simp
qed

lemma rhe_err: "\<bar>of_int (round_half_even q) - q\<bar> \<le> 1 / 2"
proof -
  have "of_int \<lfloor>q\<rfloor> \<le> q" "q < of_int \<lfloor>q\<rfloor> + 1" by linarith+
  then show ?thesis by (auto simp: round_half_even_def Let_def)
qed

lemma rhe_near:
  assumes "\<bar>q - of_int n\<bar> < 1 / 2"
  shows "round_half_even q = n"
proof (cases "of_int n \<le> q")
  case True
  then have "\<lfloor>q\<rfloor> = n" using assms by (intro floor_unique) auto
  then show ?thesis using assms True by (simp add: round_half_even_def Let_def)
next
  case False
  then have f: "\<lfloor>q\<rfloor> = n - 1" using assms by (intro floor_unique) auto
  have "1 / 2 < q - of_int (n - 1)" using assms False by auto
  then show ?thesis using f by (simp add: round_half_even_def Let_def)
qed

lemma rhe_int [simp]: "round_half_even (of_int n) = n"
  by (rule rhe_near) simp

lemma rhe_range: "\<lfloor>q\<rfloor> \<le> round_half_even q" "round_half_even q \<le> \<lfloor>q\<rfloor> + 1"
  by (simp_all add: round_half_even_def Let_def)

lemma rhe_mono:
  assumes "q \<le> q'"
  shows "round_half_even q \<le> round_half_even q'"
proof (cases "\<lfloor>q\<rfloor> = \<lfloor>q'\<rfloor>")
  case True
  then have "q - of_int \<lfloor>q\<rfloor> \<le> q' - of_int \<lfloor>q'\<rfloor>" using assms by simp
  then show ?thesis using True by (auto simp: round_half_even_def Let_def)
next
  case False
  then have "\<lfloor>q\<rfloor> < \<lfloor>q'\<rfloor>" using floor_mono[OF assms] by simp
  then show ?thesis using rhe_range(2)[of q] rhe_range(1)[of q'] by linarith
qed

lemma ulp_dexp: "ulp x = pow2 (dexp x - 52)"
  by (simp add: ulp_def)

lemma ulp_pos [simp]: "0 < ulp x"
  by (simp add: ulp_def)

lemma ulp_nonneg [simp]: "0 \<le> ulp x"
  using ulp_pos[of x] by (rule less_imp_le)

lemma pow2_nonneg [simp]: "0 \<le> pow2 e"
  using pow2_pos[of e] by (rule less_imp_le)

lemma pow2_nz [simp]: "pow2 e \<noteq> 0"
  using pow2_pos[of e] by (rule less_imp_neq[symmetric])

lemma ulp_nz [simp]: "ulp x \<noteq> 0"
  using ulp_pos[of x] by (rule less_imp_neq[symmetric])

lemma pow2_53: "pow2 (e + 1) = 2 ^ 53 * pow2 (e - 52)"
proof -
  have "e + 1 = e - 52 + 53" by simp
  then have "pow2 (e + 1) = pow2 (e - 52 + 53)" by (rule arg_cong)
  also have "\<dots> = pow2 (e - 52) * pow2 53" by (rule pow2_add)
  also have "pow2 53 = 2 ^ 53" by (simp add: pow2_def)
  finally show ?thesis by simp
qed

lemma pow2_52: "pow2 e = 2 ^ 52 * pow2 (e - 52)"
proof -
  have "e = e - 52 + 52" by simp
  then have "pow2 e = pow2 (e - 52 + 52)" by (rule arg_cong)
  also have "\<dots> = pow2 (e - 52) * pow2 52" by (rule pow2_add)
  also have "pow2 52 = 2 ^ 52" by (simp add: pow2_def)
  finally show ?thesis by simp
qed

lemma pow2_plus53: "pow2 (k + 53) = 2 ^ 53 * pow2 k"
proof -
  have "pow2 53 = 2 ^ 53" by (simp add: pow2_def)
  then show ?thesis by (simp add: pow2_add)
qed

lemma dexp_upper: "0 < x \<Longrightarrow> x < pow2 (dexp x + 1)"
proof -
  assume x: "0 < x"
  have "pow2 (floor_log2 x + 1) \<le> pow2 (dexp x + 1)" by (simp add: dexp_def)
  with floor_log2_bounds(2)[OF x] show ?thesis by linarith
qed

lemma nd_mult: "x \<noteq> 0 \<Longrightarrow> nearest_double x = of_int (round_half_even (x / ulp x)) * ulp x"
  by (simp add: nearest_double_def)

lemma nd_zero [simp]: "nearest_double 0 = 0"
  by (simp add: nearest_double_def)

lemma nd_err:
  assumes "0 < x"
  shows "\<bar>nearest_double x - x\<bar> \<le> ulp x / 2"
proof -
  define u where "u = ulp x"
  define N :: rat where "N = of_int (round_half_even (x / u))"
  have u: "0 < u" by (simp add: u_def)
  have "N * u - x = (N - x / u) * u" using u by (simp add: algebra_simps)
  then have "\<bar>N * u - x\<bar> = \<bar>N - x / u\<bar> * u" using u by (simp add: abs_mult)
  also have "\<dots> \<le> 1 / 2 * u"
    using u rhe_err[of "x / u"] unfolding N_def by (intro mult_right_mono) simp_all
  finally have "\<bar>N * u - x\<bar> \<le> u / 2" by simp
  moreover have "nearest_double x = N * u" using assms by (simp add: nd_mult N_def u_def)
  ultimately show ?thesis by (simp add: u_def)
qed

lemma nd_quot_upper:
  assumes "0 < x"
  shows "round_half_even (x / ulp x) \<le> 2 ^ 53"
proof -
  have "x < 2 ^ 53 * ulp x" using dexp_upper[OF assms] by (simp add: pow2_53[of "dexp x"] ulp_dexp)
  then have "x / ulp x \<le> of_int (2 ^ 53)" by (simp add: pos_divide_le_eq)
  from rhe_mono[OF this] show ?thesis by (simp only: rhe_int)
qed

lemma nd_quot_lower:
  assumes "0 < x"
  shows "0 \<le> round_half_even (x / ulp x)"
proof -
  have "of_int 0 \<le> x / ulp x" using assms by simp
  from rhe_mono[OF this] show ?thesis by (simp only: rhe_int)
qed

lemma nd_quot_normal:
  assumes "0 < x" "- 1022 \<le> floor_log2 x"
  shows "2 ^ 52 \<le> round_half_even (x / ulp x)"
proof -
  have d: "dexp x = floor_log2 x" using assms(2) by (simp add: dexp_def)
  have "2 ^ 52 * ulp x \<le> x" using floor_log2_bounds(1)[OF assms(1)] d pow2_52[of "dexp x"] by (simp add: ulp_dexp)
  then have "of_int (2 ^ 52) \<le> x / ulp x" by (simp add: pos_le_divide_eq)
  from rhe_mono[OF this] show ?thesis by (simp only: rhe_int)
qed

lemma nd_nonneg: "0 \<le> x \<Longrightarrow> 0 \<le> nearest_double x"
proof (cases "x = 0")
  case False
  assume "0 \<le> x"
  with False have "0 < x" by simp
  from nd_quot_lower[OF this] show ?thesis using False by (simp add: nd_mult)
qed simp

lemma nd_le:
  assumes "0 < x"
  shows "nearest_double x \<le> pow2 (dexp x + 1)"
proof -
  have "of_int (round_half_even (x / ulp x)) \<le> (2 :: rat) ^ 53"
    using nd_quot_upper[OF assms] by simp
  then have a: "of_int (round_half_even (x / ulp x)) * ulp x \<le> 2 ^ 53 * ulp x"
    by (intro mult_right_mono) simp_all
  have b: "pow2 (dexp x + 1) = 2 ^ 53 * ulp x"
    using pow2_53[of "dexp x"] by (simp only: ulp_dexp)
  have c: "nearest_double x = of_int (round_half_even (x / ulp x)) * ulp x"
    using assms(1) by (simp add: nd_mult)
  show ?thesis unfolding b c by (rule a)
qed

lemma nd_ge:
  assumes "0 < x" "- 1022 \<le> floor_log2 x"
  shows "pow2 (floor_log2 x) \<le> nearest_double x"
proof -
  have d: "dexp x = floor_log2 x" using assms(2) by (simp add: dexp_def)
  have "(2 :: rat) ^ 52 \<le> of_int (round_half_even (x / ulp x))"
    using nd_quot_normal[OF assms] by simp
  then have a: "2 ^ 52 * ulp x \<le> of_int (round_half_even (x / ulp x)) * ulp x"
    by (intro mult_right_mono) simp_all
  have b: "pow2 (floor_log2 x) = 2 ^ 52 * ulp x"
    using pow2_52[of "dexp x"] by (simp only: d ulp_dexp)
  have c: "nearest_double x = of_int (round_half_even (x / ulp x)) * ulp x"
    using assms(1) by (simp add: nd_mult)
  show ?thesis unfolding b c by (rule a)
qed

lemma nd_mono:
  assumes "0 \<le> x" "x \<le> y"
  shows "nearest_double x \<le> nearest_double y"
proof (cases "x = 0")
  case True
  then show ?thesis using nd_nonneg[of y] assms by simp
next
  case False
  then have x: "0 < x" and y: "0 < y" using assms by simp_all
  have le: "dexp x \<le> dexp y" using floor_log2_mono[OF x assms(2)] by (simp add: dexp_def)
  show ?thesis
  proof (cases "dexp x = dexp y")
    case True
    then have u: "ulp x = ulp y" by (simp add: ulp_dexp)
    have "x / ulp y \<le> y / ulp y" using assms(2) by (intro divide_right_mono) simp_all
    from rhe_mono[OF this]
    have "(of_int (round_half_even (x / ulp y)) :: rat) \<le> of_int (round_half_even (y / ulp y))" by simp
    then have "of_int (round_half_even (x / ulp y)) * ulp y \<le> of_int (round_half_even (y / ulp y)) * ulp y"
      by (intro mult_right_mono) simp_all
    then show ?thesis using x y u by (simp add: nd_mult)
  next
    case False
    with le have lt: "dexp x < dexp y" by simp
    then have fy: "dexp y = floor_log2 y" "- 1022 \<le> floor_log2 y" by (auto simp: dexp_def)
    have "nearest_double x \<le> pow2 (dexp x + 1)" by (rule nd_le[OF x])
    also have "\<dots> \<le> pow2 (floor_log2 y)" using lt fy by simp
    also have "\<dots> \<le> nearest_double y" by (rule nd_ge[OF y fy(2)])
    finally show ?thesis .
  qed
qed

lemma nd_fixed:
  assumes "0 < n" "n \<le> 2 ^ 53" "- 1074 \<le> k"
  shows "nearest_double (of_int n * pow2 k) = of_int n * pow2 k"
proof -
  define d where "d = of_int n * pow2 k"
  have d: "0 < d" using assms(1) by (simp add: d_def)
  have dle: "d \<le> pow2 (k + 53)"
  proof -
    have "(of_int n :: rat) \<le> 2 ^ 53" using assms(2) by simp
    then have "of_int n * pow2 k \<le> 2 ^ 53 * pow2 k" by (intro mult_right_mono) simp_all
    also have "\<dots> = pow2 (k + 53)" by (simp only: pow2_plus53)
    finally show ?thesis by (simp add: d_def)
  qed
  have "\<exists>m. d / ulp d = of_int m"
  proof (cases "d = pow2 (k + 53)")
    case True
    then have "floor_log2 d = k + 53" by (intro floor_log2_unique) simp_all
    then have "dexp d = k + 53" using assms(3) by (simp add: dexp_def)
    then have "ulp d = pow2 (k + 1)" by (simp add: ulp_dexp add.commute)
    then have u: "ulp d = pow2 (k + 1)" .
    have "pow2 (k + 53) = pow2 (k + 1 + 52)" by (rule arg_cong) simp
    also have "\<dots> = pow2 (k + 1) * pow2 52" by (rule pow2_add)
    also have "pow2 52 = 2 ^ 52" by (simp add: pow2_def)
    finally have "d / ulp d = 2 ^ 52" using True u by simp
    then have "d / ulp d = of_int (2 ^ 52)" by simp
    then show ?thesis by blast
  next
    case False
    with dle have "d < pow2 (k + 53)" by simp
    from floor_log2_less[OF d this] have "dexp d \<le> k + 52" using assms(3) by (simp add: dexp_def)
    define q where "q = dexp d - 52"
    have "q \<le> k" using \<open>dexp d \<le> k + 52\<close> by (simp add: q_def)
    then obtain j where j: "k = q + int j" by (metis zle_iff_zadd)
    have "pow2 k = pow2 q * pow2 (int j)" by (subst j) (rule pow2_add)
    also have "pow2 (int j) = 2 ^ j" by (simp add: pow2_def)
    finally have pk: "pow2 k = pow2 q * 2 ^ j" .
    have dq: "d = of_int n * (pow2 q * 2 ^ j)" by (simp only: d_def pk)
    have uq: "ulp d = pow2 q" by (simp only: ulp_dexp q_def)
    have "d / ulp d = of_int n * (pow2 q * 2 ^ j) / pow2 q" by (simp only: uq) (simp only: dq)
    also have "\<dots> = of_int n * 2 ^ j" by simp
    finally have "d / ulp d = of_int (n * 2 ^ j)" by simp
    then show ?thesis by blast
  qed
  then obtain m where m: "d / ulp d = of_int m" by blast
  then have "d = of_int m * ulp d" by (simp add: field_simps)
  moreover have "nearest_double d = of_int (round_half_even (d / ulp d)) * ulp d" using d by (simp add: nd_mult)
  ultimately show ?thesis using m by (simp add: d_def)
qed

lemma nd_rep:
  assumes "0 < x"
  shows "\<exists>n. nearest_double x = of_int n * pow2 (dexp x - 52) \<and> 0 \<le> n \<and> n \<le> 2 ^ 53 \<and> - 1074 \<le> dexp x - 52"
  using nd_quot_lower[OF assms] nd_quot_upper[OF assms] assms
  by (intro exI[of _ "round_half_even (x / ulp x)"]) (simp add: nd_mult ulp_dexp dexp_def)

lemma nd_idem:
  assumes "0 \<le> x"
  shows "nearest_double (nearest_double x) = nearest_double x"
proof (cases "x = 0")
  case False
  with assms have x: "0 < x" by simp
  from nd_rep[OF x] obtain n where n: "nearest_double x = of_int n * pow2 (dexp x - 52)"
    "0 \<le> n" "n \<le> 2 ^ 53" "- 1074 \<le> dexp x - 52" by blast
  show ?thesis
  proof (cases "n = 0")
    case True
    then show ?thesis using n(1) by simp
  next
    case False
    with n(2) have "0 < n" by simp
    from nd_fixed[OF this n(3) n(4)] show ?thesis using n(1) by simp
  qed
qed simp

subsection \<open>The shortest decimal of a double\<close>

lemma pow10_pos [simp]: "0 < pow10 g"
  by (simp add: pow10_def)

lemma pow10_nz [simp]: "pow10 g \<noteq> 0"
  using pow10_pos[of g] by (rule less_imp_neq[symmetric])

lemma pow10_cents: "- 2 \<le> g \<Longrightarrow> pow10 g = of_int (10 ^ nat (g + 2)) / 100"
proof -
  assume g: "- 2 \<le> g"
  show ?thesis
  proof (cases "0 \<le> g")
    case True
    then have "nat (g + 2) = nat g + 2" by simp
    then show ?thesis using True by (simp add: pow10_def power_add)
  next
    case False
    with g have "g = - 1 \<or> g = - 2" by auto
    then show ?thesis by (auto simp: pow10_def)
  qed
qed

lemma below_le: "below g x \<le> x"
proof -
  have "of_int \<lfloor>x / pow10 g\<rfloor> \<le> x / pow10 g" by simp
  then have "of_int \<lfloor>x / pow10 g\<rfloor> * pow10 g \<le> x / pow10 g * pow10 g"
    by (intro mult_right_mono) (simp_all add: less_imp_le)
  then show ?thesis by (simp add: below_def)
qed

lemma above_gt: "x < above g x"
proof -
  have "x / pow10 g < of_int \<lfloor>x / pow10 g\<rfloor> + 1" by linarith
  then have "x / pow10 g * pow10 g < (of_int \<lfloor>x / pow10 g\<rfloor> + 1) * pow10 g"
    by (intro mult_strict_right_mono) simp_all
  then show ?thesis by (simp add: above_def below_def algebra_simps)
qed

lemma below_nonneg: "0 \<le> x \<Longrightarrow> 0 \<le> below g x"
  by (simp add: below_def less_imp_le)

lemma above_pos: "0 \<le> x \<Longrightarrow> 0 < above g x"
  using above_gt[of x g] by simp

lemma shortest_at_cases:
  "(nearest_double (below g x) = x \<and> shortest_at g x = below g x) \<or>
   (nearest_double (above g x) = x \<and> shortest_at g x = above g x) \<or>
   (nearest_double (below g x) \<noteq> x \<and> nearest_double (above g x) \<noteq> x \<and>
    shortest_at g x = (if g \<le> - 1074 then x else shortest_at (g - 1) x))"
  by (subst (1 2 3) shortest_at.simps) (simp add: Let_def)

lemma shortest_at_reads_back:
  assumes "nearest_double x = x"
  shows "nearest_double (shortest_at g x) = x"
proof (induction "nat (g + 1074)" arbitrary: g)
  case 0
  then have "g \<le> - 1074" by simp
  then show ?case using shortest_at_cases[of g x] assms by auto
next
  case (Suc n)
  then have "n = nat (g - 1 + 1074)" by simp
  from Suc(1)[OF this] show ?case using shortest_at_cases[of g x] assms by auto
qed

lemma shortest_at_nonneg:
  assumes "0 \<le> x"
  shows "0 \<le> shortest_at g x"
proof (induction "nat (g + 1074)" arbitrary: g)
  case 0
  then have "g \<le> - 1074" by simp
  then show ?case using shortest_at_cases[of g x] assms below_nonneg[OF assms, of g] above_pos[OF assms, of g]
    by auto
next
  case (Suc n)
  then have "n = nat (g - 1 + 1074)" by simp
  from Suc(1)[OF this] show ?case
    using shortest_at_cases[of g x] assms below_nonneg[OF assms, of g] above_pos[OF assms, of g]
    by (auto split: if_splits)
qed

lemma below_cents: "- 2 \<le> g \<Longrightarrow> \<exists>i. below g x = of_int i / 100"
proof -
  assume "- 2 \<le> g"
  from pow10_cents[OF this] obtain c :: int where c: "pow10 g = of_int c / 100" by blast
  have "below g x = of_int (\<lfloor>x / pow10 g\<rfloor> * c) / 100" by (simp add: below_def) (simp add: c)
  then show ?thesis by blast
qed

lemma above_cents: "- 2 \<le> g \<Longrightarrow> \<exists>i. above g x = of_int i / 100"
proof -
  assume "- 2 \<le> g"
  from pow10_cents[OF this] obtain c :: int where c: "pow10 g = of_int c / 100" by blast
  have "above g x = (of_int \<lfloor>x / pow10 g\<rfloor> + 1) * pow10 g"
    by (simp add: above_def below_def algebra_simps)
  also have "\<dots> = of_int ((\<lfloor>x / pow10 g\<rfloor> + 1) * c) / 100" by (simp add: c)
  finally show ?thesis by blast
qed

lemma cents_found:
  assumes x: "0 \<le> x" "nearest_double x = x"
    and m: "0 \<le> j" "nearest_double (of_int j / 100) = x"
  shows "nearest_double (below (- 2) x) = x \<or> nearest_double (above (- 2) x) = x"
proof (cases "of_int j / 100 \<le> x")
  case True
  then have "of_int j \<le> x * 100" by (simp add: pos_divide_le_eq)
  then have "j \<le> \<lfloor>x * 100\<rfloor>" by (simp add: le_floor_iff)
  then have "(of_int j :: rat) / 100 \<le> of_int \<lfloor>x * 100\<rfloor> / 100" by simp
  moreover have b: "below (- 2) x = of_int \<lfloor>x * 100\<rfloor> / 100" by (simp add: below_def pow10_def)
  ultimately have le: "of_int j / 100 \<le> below (- 2) x" by simp
  have j0: "(0 :: rat) \<le> of_int j / 100" using m(1) by simp
  have "x \<le> nearest_double (below (- 2) x)" using nd_mono[OF j0 le] m(2) by simp
  moreover have "nearest_double (below (- 2) x) \<le> x"
    using nd_mono[OF below_nonneg[OF x(1), of "- 2"] below_le[of "- 2" x]] x(2) by simp
  ultimately show ?thesis by simp
next
  case False
  then have "x * 100 < of_int j" by (simp add: pos_less_divide_eq)
  then have "\<lfloor>x * 100\<rfloor> < j" by (simp only: floor_less_iff)
  then have "\<lfloor>x * 100\<rfloor> + 1 \<le> j" by simp
  then have "(of_int (\<lfloor>x * 100\<rfloor> + 1) :: rat) / 100 \<le> of_int j / 100" by (simp del: of_int_add)
  moreover have "above (- 2) x = of_int (\<lfloor>x * 100\<rfloor> + 1) / 100"
    by (simp add: above_def below_def pow10_def add_divide_distrib)
  ultimately have le: "above (- 2) x \<le> of_int j / 100" by simp
  have "nearest_double (above (- 2) x) \<le> x"
    using nd_mono[OF less_imp_le[OF above_pos[OF x(1), of "- 2"]] le] m(2) by simp
  moreover have "x \<le> nearest_double (above (- 2) x)"
    using nd_mono[OF x(1) less_imp_le[OF above_gt[of x "- 2"]]] x(2) by simp
  ultimately show ?thesis by simp
qed

lemma shortest_at_cents:
  assumes x: "0 \<le> x" "nearest_double x = x"
    and m: "0 \<le> j" "nearest_double (of_int j / 100) = x"
    and g: "- 2 \<le> g"
  shows "\<exists>i. shortest_at g x = of_int i / 100"
  using g
proof (induction "nat (g + 2)" arbitrary: g)
  case 0
  then have g: "g = - 2" by simp
  from cents_found[OF x m] shortest_at_cases[of "- 2" x] below_cents[of "- 2" x] above_cents[of "- 2" x]
  show ?case unfolding g by auto
next
  case (Suc n)
  then have n: "n = nat (g - 1 + 2)" and g1: "- 2 \<le> g - 1" by simp_all
  from Suc(1)[OF n g1] shortest_at_cases[of g x] below_cents[OF Suc(3), of x] above_cents[OF Suc(3), of x] Suc(3)
  show ?case by (auto split: if_splits)
qed

lemma decimal_digits_pos: "1 \<le> decimal_digits n"
  by (induction n rule: decimal_digits.induct) (subst decimal_digits.simps, auto)

lemma shortest_decimal_reads_back:
  "nearest_double x = x \<Longrightarrow> nearest_double (shortest_decimal x) = x"
  by (simp add: shortest_decimal_def shortest_at_reads_back)

lemma shortest_decimal_nonneg: "0 \<le> x \<Longrightarrow> 0 \<le> shortest_decimal x"
  by (simp add: shortest_decimal_def shortest_at_nonneg)

lemma shortest_decimal_cents:
  assumes "0 \<le> x" "nearest_double x = x" "0 \<le> j" "nearest_double (of_int j / 100) = x"
  shows "\<exists>i. shortest_decimal x = of_int i / 100"
proof (cases "x = 0")
  case True
  then have "shortest_decimal x = of_int 0 / 100" by (simp add: shortest_decimal_def)
  then show ?thesis by blast
next
  case False
  have "- 2 \<le> decimal_digits \<lfloor>x\<rfloor>" using decimal_digits_pos[of "\<lfloor>x\<rfloor>"] by simp
  from shortest_at_cents[OF assms this] False show ?thesis by (simp add: shortest_decimal_def)
qed

lemma pow2_46: "pow2 46 = 2 ^ 46" by (simp add: pow2_def)

lemma nd_2_46: "nearest_double (2 ^ 46) = 2 ^ 46"
  using nd_fixed[of "2 ^ 46" 0] by (simp add: pow2_def)

lemma nd_2_46_num [simp]: "nearest_double 70368744177664 = 70368744177664"
  using nd_2_46 by simp

lemma nd_close:
  assumes "0 \<le> y" "y \<le> 2 ^ 46"
  shows "\<bar>nearest_double y - y\<bar> < 1 / 200"
proof -
  consider "y = 0" | "y = 2 ^ 46" | "0 < y" "y < 2 ^ 46" using assms by fastforce
  then show ?thesis
  proof cases
    case 1
    then show ?thesis by simp
  next
    case 2
    then show ?thesis by (simp add: nd_2_46)
  next
    case 3
    from floor_log2_less[OF 3(1), of 46] 3(2) have "floor_log2 y < 46" by (simp add: pow2_46)
    then have "dexp y - 52 \<le> - 7" by (simp add: dexp_def)
    then have "ulp y \<le> pow2 (- 7)" by (simp add: ulp_dexp)
    also have "pow2 (- 7) = 1 / 128" by (simp add: pow2_def)
    finally have "ulp y / 2 \<le> 1 / 256" by simp
    with nd_err[OF 3(1)] show ?thesis by linarith
  qed
qed

lemma cents_in_interval:
  assumes big: "2 ^ 46 \<le> x" and fp: "nearest_double x = x"
  shows "\<exists>j. 0 \<le> j \<and> nearest_double (of_int j / 100) = x"
proof -
  have x: "0 < x" using big by (simp add: less_le_trans[of 0 "2 ^ 46" x])
  define e where "e = floor_log2 x"
  define u where "u = pow2 (e - 52)"
  define n where "n = round_half_even (x / u)"
  have e46: "46 \<le> e" unfolding e_def using big by (intro floor_log2_ge) (simp add: pow2_46)
  have dx: "dexp x = e" using e46 by (simp add: dexp_def e_def)
  have ux: "ulp x = u" by (simp add: ulp_dexp dx u_def)
  have u0: "0 < u" by (simp add: u_def)
  have xn: "x = of_int n * u" using fp x by (simp add: nd_mult ux n_def)
  have b: "pow2 e \<le> x" "x < pow2 (e + 1)" using floor_log2_bounds[OF x] by (simp_all add: e_def)
  have "of_int n * u < 2 ^ 53 * u" using b(2) xn pow2_53[of e] by (simp add: u_def)
  then have "(of_int n :: rat) < 2 ^ 53" using u0 by simp
  then have "n < 2 ^ 53" by simp
  then have "n + 1 \<le> 2 ^ 53" by simp
  then have "(of_int (n + 1) :: rat) \<le> 2 ^ 53" by (simp del: of_int_add)
  then have "of_int (n + 1) * u \<le> 2 ^ 53 * u" using u0 by (intro mult_right_mono) simp_all
  then have xu: "x + u \<le> pow2 (e + 1)" using xn pow2_53[of e] by (simp add: u_def algebra_simps)
  have "pow2 (- 6) \<le> u" using e46 by (simp add: u_def)
  then have u64: "1 / 64 \<le> u" by (simp add: pow2_def)
  define j where "j = \<lfloor>x * 100 + 1 / 2\<rfloor>"
  define m :: rat where "m = of_int j / 100"
  have j1: "of_int j \<le> x * 100 + 1 / 2" "x * 100 + 1 / 2 < of_int j + 1" unfolding j_def by linarith+
  then have "m - x \<le> 1 / 200" "x - m \<le> 1 / 200" by (simp_all add: m_def)
  then have mx: "\<bar>m - x\<bar> \<le> 1 / 200" by linarith
  obtain N :: int where N: "pow2 e = of_int N"
  proof
    show "pow2 e = of_int (2 ^ nat e)" using e46 by (simp add: pow2_nat)
  qed
  have "of_int (N * 100) \<le> x * 100 + 1 / 2" using b(1) N by simp
  then have "N * 100 \<le> j" unfolding j_def by (simp only: le_floor_iff)
  then have "(of_int (N * 100) :: rat) \<le> of_int j" by (simp only: of_int_le_iff)
  then have lo: "pow2 e \<le> m" by (simp add: m_def N)
  have hi: "m < pow2 (e + 1)" using mx xu u64 by linarith
  have m0: "0 < m" using lo pow2_pos[of e] by linarith
  have "floor_log2 m = e" using lo hi by (rule floor_log2_unique)
  then have um: "ulp m = u" using e46 by (simp add: ulp_dexp dexp_def u_def)
  have "m / u - of_int n = (m - x) / u" using u0 by (simp add: xn diff_divide_distrib)
  then have "\<bar>m / u - of_int n\<bar> = \<bar>m - x\<bar> / u" using u0 by (simp add: abs_divide)
  also have "\<dots> \<le> (1 / 200) / u" by (rule divide_right_mono[OF mx less_imp_le[OF u0]])
  also have "\<dots> \<le> (1 / 200) / (1 / 64)" using u64 by (intro divide_left_mono) simp_all
  also have "\<dots> < 1 / 2" by simp
  finally have "round_half_even (m / u) = n" by (rule rhe_near)
  then have "nearest_double m = x" using m0 by (simp add: nd_mult um xn)
  moreover have "0 \<le> j" using m0 by (simp add: m_def zero_less_divide_iff)
  ultimately show ?thesis unfolding m_def by blast
qed

lemma floor_cents: "\<lfloor>(of_int i :: rat) / 100 * 100 + 1 / 2\<rfloor> = i"
  by (rule floor_unique) simp_all

lemma hundredths_cents:
  assumes r46: "of_nat c / 100 \<le> (2 :: rat) ^ 46"
  shows "hundredths (nearest_double (of_nat c / 100)) = c"
proof -
  define r :: rat where "r = of_nat c / 100"
  have r46: "r \<le> 2 ^ 46" using assms by (simp add: r_def)
  have r0: "0 \<le> r" by (simp add: r_def)
  define d where "d = nearest_double r"
  have dr: "\<bar>d - r\<bar> < 1 / 200" unfolding d_def by (rule nd_close[OF r0 r46])
  have d0: "0 \<le> d" unfolding d_def by (rule nd_nonneg[OF r0])
  have dd: "nearest_double d = d" unfolding d_def by (rule nd_idem[OF r0])
  have d46: "d \<le> 2 ^ 46" using nd_mono[OF r0 r46] by (simp add: d_def nd_2_46)
  define s where "s = shortest_decimal d"
  have sd': "nearest_double s = d" unfolding s_def by (rule shortest_decimal_reads_back[OF dd])
  have s0: "0 \<le> s" unfolding s_def by (rule shortest_decimal_nonneg[OF d0])
  have "nearest_double (of_int (int c) / 100) = d" by (simp add: d_def r_def)
  from shortest_decimal_cents[OF d0 dd _ this] obtain i where i: "s = of_int i / 100"
    by (auto simp: s_def)
  have s46: "s \<le> 2 ^ 46"
  proof (rule ccontr)
    assume "\<not> s \<le> 2 ^ 46"
    then have "of_int (2 ^ 46 * 100) < (of_int i :: rat)" by (simp add: i)
    then have "2 ^ 46 * 100 < i" by (simp only: of_int_less_iff)
    then have "2 ^ 46 * 100 + 1 \<le> i" by simp
    then have "(of_int (2 ^ 46 * 100 + 1) :: rat) \<le> of_int i" by (simp only: of_int_le_iff)
    then have ts: "2 ^ 46 + 1 / 100 \<le> s" by (simp add: i)
    define t :: rat where "t = 2 ^ 46 + 1 / 100"
    have t0: "0 < t" by (simp add: t_def)
    have "floor_log2 t = 46" by (rule floor_log2_unique) (simp_all add: pow2_def t_def)
    then have "ulp t = 1 / 64" by (simp add: ulp_dexp dexp_def pow2_def)
    with nd_err[OF t0] have "\<bar>nearest_double t - t\<bar> \<le> 1 / 128" by simp
    then have "t - 1 / 128 \<le> nearest_double t" by linarith
    then have "2 ^ 46 < nearest_double t" by (simp add: t_def)
    moreover have "nearest_double t \<le> nearest_double s" using ts t0 by (intro nd_mono) (simp_all add: t_def)
    ultimately show False using sd' d46 by simp
  qed
  have ds: "\<bar>d - s\<bar> < 1 / 200" using nd_close[OF s0 s46] sd' by simp
  have "r - s < 1 / 100" "s - r < 1 / 100" using dr ds by linarith+
  then have "(of_int (int c - i) :: rat) / 100 < 1 / 100" "(of_int (i - int c) :: rat) / 100 < 1 / 100"
    by (simp_all add: r_def i diff_divide_distrib)
  then have "(of_int (int c - i) :: rat) < 1" "(of_int (i - int c) :: rat) < 1"
    by (simp_all del: of_int_diff)
  then have "int c - i < 1" "i - int c < 1" by (simp_all only: of_int_less_1_iff)
  then have ic: "i = int c" by simp
  have "hundredths d = nat \<lfloor>s * 100 + 1 / 2\<rfloor>" by (simp add: hundredths_def s_def)
  also have "\<dots> = nat i" by (simp only: i floor_cents)
  finally have "hundredths d = c" using ic by simp
  then show ?thesis by (simp add: d_def r_def)
qed

lemma hundredths_stable:
  assumes x: "0 \<le> x" "nearest_double x = x" "x < 2 ^ 1024"
  shows "hundredths (nearest_double (of_nat (hundredths x) / 100)) = hundredths x \<and>
         nearest_double (of_nat (hundredths x) / 100) < 2 ^ 1024"
proof -
  define sd where "sd = shortest_decimal x"
  define c where "c = hundredths x"
  define r :: rat where "r = of_nat c / 100"
  have sd0: "0 \<le> sd" unfolding sd_def by (rule shortest_decimal_nonneg[OF x(1)])
  have sdx: "nearest_double sd = x" unfolding sd_def by (rule shortest_decimal_reads_back[OF x(2)])
  have c: "c = nat \<lfloor>sd * 100 + 1 / 2\<rfloor>" by (simp add: c_def hundredths_def sd_def)
  have fl0: "0 \<le> \<lfloor>sd * 100 + 1 / 2\<rfloor>" using sd0 by simp
  have "hundredths (nearest_double r) = c \<and> nearest_double r < 2 ^ 1024"
  proof (cases "\<exists>i. sd = of_int i / 100")
    case True
    then obtain i where i: "sd = of_int i / 100" by blast
    have "c = nat i" by (simp only: c i floor_cents)
    moreover have "0 \<le> i" using sd0 i by (simp add: zero_le_divide_iff)
    ultimately have "r = sd" by (simp add: r_def i)
    then have "nearest_double r = x" using sdx by simp
    then show ?thesis using x(3) by (simp add: c_def)
  next
    case False
    have none: "\<not> (\<exists>j. 0 \<le> j \<and> nearest_double (of_int j / 100) = x)"
    proof
      assume "\<exists>j. 0 \<le> j \<and> nearest_double (of_int j / 100) = x"
      then obtain j where "0 \<le> j" "nearest_double (of_int j / 100) = x" by blast
      from shortest_decimal_cents[OF x(1,2) this] False show False by (simp add: sd_def)
    qed
    have small: "x < 2 ^ 46"
    proof (rule ccontr)
      assume "\<not> x < 2 ^ 46"
      then have "2 ^ 46 \<le> x" by simp
      from cents_in_interval[OF this x(2)] none show False by blast
    qed
    have sd46: "sd \<le> 2 ^ 46"
    proof (rule ccontr)
      assume "\<not> sd \<le> 2 ^ 46"
      then have "(2 :: rat) ^ 46 \<le> sd" by simp
      from nd_mono[OF _ this] have "2 ^ 46 \<le> nearest_double sd" by (simp add: nd_2_46)
      with sdx small show False by simp
    qed
    have "sd * 100 + 1 / 2 < of_int (2 ^ 46 * 100) + 1" using sd46 by simp
    then have "\<lfloor>sd * 100 + 1 / 2\<rfloor> < 2 ^ 46 * 100 + 1" by (simp only: floor_less_iff of_int_add of_int_1)
    then have fle: "\<lfloor>sd * 100 + 1 / 2\<rfloor> \<le> 2 ^ 46 * 100" by simp
    have rc: "r = of_int \<lfloor>sd * 100 + 1 / 2\<rfloor> / 100" using fl0 by (simp add: r_def c)
    have "(of_int \<lfloor>sd * 100 + 1 / 2\<rfloor> :: rat) \<le> of_int (2 ^ 46 * 100)" using fle by (simp only: of_int_le_iff)
    then have r46: "r \<le> 2 ^ 46" by (simp add: rc)
    have r0: "0 \<le> r" by (simp add: r_def)
    have "hundredths (nearest_double r) = c" using r46 unfolding r_def by (rule hundredths_cents)
    moreover have "nearest_double r \<le> 2 ^ 46" using nd_mono[OF r0 r46] by (simp add: nd_2_46)
    then have "nearest_double r < 2 ^ 1024" by (rule le_less_trans) simp
    ultimately show ?thesis by simp
  qed
  then show ?thesis by (simp add: r_def c_def)
qed

lemma trim_empty: "trim [] = []"
  by (simp add: trim_def)

subsection \<open>Digits and grouping\<close>

lemma digit_char_code: "d < 10 \<Longrightarrow> (of_char (digit_char d) :: nat) = d + 48"
proof -
  assume "d < 10"
  then consider "d = 0" | "d = 1" | "d = 2" | "d = 3" | "d = 4" | "d = 5" | "d = 6" | "d = 7" | "d = 8" | "d = 9"
    by atomize_elim arith
  then show ?thesis by cases (simp_all add: digit_char_def)
qed

lemma is_digit_digit_char: "d < 10 \<Longrightarrow> is_digit (digit_char d)"
  by (simp add: is_digit_def digit_char_code)

lemma digit_val_digit_char: "d < 10 \<Longrightarrow> digit_val (digit_char d) = d"
  by (simp add: digit_val_def digit_char_code)

lemma is_digit_not_special:
  "is_digit c \<Longrightarrow> c \<noteq> CHR '','' \<and> c \<noteq> CHR ''.'' \<and> c \<noteq> CHR ''-'' \<and> c \<noteq> CHR ''('' \<and> \<not> is_space c"
  by (auto simp: is_digit_def is_space_def)

lemma digits_val_snoc: "digits_val (ds @ [c]) = 10 * digits_val ds + digit_val c"
  by (simp add: digits_val_def)

lemma nat_digits_all: "\<forall>c \<in> set (nat_digits n). is_digit c"
proof (induction n rule: nat_digits.induct)
  case (1 n)
  show ?case
  proof (cases "n < 10")
    case True
    then show ?thesis by (simp add: nat_digits.simps[of n] is_digit_digit_char)
  next
    case False
    with 1 show ?thesis by (simp add: nat_digits.simps[of n] is_digit_digit_char)
  qed
qed

lemma nat_digits_val: "digits_val (nat_digits n) = n"
proof (induction n rule: nat_digits.induct)
  case (1 n)
  show ?case
  proof (cases "n < 10")
    case True
    then show ?thesis by (simp add: nat_digits.simps[of n] digits_val_def digit_val_digit_char)
  next
    case False
    with 1 show ?thesis by (simp add: nat_digits.simps[of n] digits_val_snoc digit_val_digit_char)
  qed
qed

lemma nat_digits_nonempty: "nat_digits n \<noteq> []"
  by (subst nat_digits.simps) simp


lemma digits_val_append3:
  "digits_val (ds @ [a, b, c]) = 1000 * digits_val ds + 100 * digit_val a + 10 * digit_val b + digit_val c"
  by (simp add: digits_val_def)

lemma grouped_all: "\<forall>c \<in> set (grouped n). is_digit c \<or> c = CHR '',''"
proof (induction n rule: grouped.induct)
  case (1 n)
  show ?case
  proof (cases "n < 1000")
    case True
    then show ?thesis using nat_digits_all by (simp add: grouped.simps[of n])
  next
    case False
    with 1 show ?thesis by (auto simp add: grouped.simps[of n] is_digit_digit_char)
  qed
qed

lemma ungrouped_all: "\<forall>c \<in> set (ungrouped (grouped n)). is_digit c"
  using grouped_all[of n] by (auto simp: ungrouped_def)

lemma filter_digits_id: "\<forall>c \<in> set ds. is_digit c \<Longrightarrow> filter (\<lambda>c. c \<noteq> CHR '','') ds = ds"
  by (induction ds) (auto simp: is_digit_not_special)

lemma ungrouped_val: "digits_val (ungrouped (grouped n)) = n"
proof (induction n rule: grouped.induct)
  case (1 n)
  show ?case
  proof (cases "n < 1000")
    case True
    then show ?thesis
      using nat_digits_all[of n] by (simp add: grouped.simps[of n] ungrouped_def filter_digits_id nat_digits_val)
  next
    case False
    have d: "n mod 1000 div 100 < 10" "n mod 100 div 10 < 10" "n mod 10 < 10" by simp_all
    from False 1 have ih: "digits_val (ungrouped (grouped (n div 1000))) = n div 1000" by simp
    have "ungrouped (grouped n) = ungrouped (grouped (n div 1000)) @
       [digit_char (n mod 1000 div 100), digit_char (n mod 100 div 10), digit_char (n mod 10)]"
    proof -
      have "digit_char (n mod 1000 div 100) \<noteq> CHR '',''" "digit_char (n mod 100 div 10) \<noteq> CHR '',''"
        "digit_char (n mod 10) \<noteq> CHR '',''"
        using d is_digit_digit_char is_digit_not_special by blast+
      then show ?thesis using False by (simp add: grouped.simps[of n] ungrouped_def)
    qed
    moreover have "n = 1000 * (n div 1000) + 100 * (n mod 1000 div 100) + 10 * (n mod 100 div 10) + n mod 10"
    proof -
      have a: "n = 1000 * (n div 1000) + n mod 1000" by simp
      have "n mod 1000 mod 100 = n mod 100" by (simp add: mod_mod_cancel)
      then have b: "n mod 1000 = 100 * (n mod 1000 div 100) + n mod 100"
        by (metis mult_div_mod_eq)
      have "n mod 100 mod 10 = n mod 10" by (simp add: mod_mod_cancel)
      then have c: "n mod 100 = 10 * (n mod 100 div 10) + n mod 10"
        by (metis mult_div_mod_eq)
      from a b c show ?thesis by linarith
    qed
    ultimately show ?thesis using d ih
      by (simp add: digits_val_append3 digit_val_digit_char)
  qed
qed

lemma grouped_nonempty: "grouped n \<noteq> []"
  by (subst grouped.simps) (simp add: nat_digits_nonempty)

lemma grouped_hd: "is_digit (hd (grouped n))"
proof (induction n rule: grouped.induct)
  case (1 n)
  show ?case
  proof (cases "n < 1000")
    case True
    then show ?thesis using nat_digits_all[of n] nat_digits_nonempty[of n]
      by (simp add: grouped.simps[of n])
  next
    case False
    with 1 show ?thesis using grouped_nonempty[of "n div 1000"] by (simp add: grouped.simps[of n])
  qed
qed

subsection \<open>Amount normalisation\<close>

lemma trim_id: "s \<noteq> [] \<Longrightarrow> \<not> is_space (hd s) \<Longrightarrow> \<not> is_space (last s) \<Longrightarrow> trim s = s"
proof -
  assume a: "s \<noteq> []" "\<not> is_space (hd s)" "\<not> is_space (last s)"
  then have 1: "dropWhile is_space s = s" by (cases s) auto
  from a have 2: "dropWhile is_space (rev s) = rev s"
    by (cases "rev s") (auto simp: last_rev hd_rev)
  show ?thesis by (simp add: trim_def 1 2)
qed

lemma trim_shape: "trim s = [] \<or> (\<not> is_space (hd (trim s)) \<and> \<not> is_space (last (trim s)))"
proof (cases "trim s = []")
  case True
  then show ?thesis by simp
next
  case False
  let ?a = "dropWhile is_space s"
  let ?b = "dropWhile is_space (rev ?a)"
  from False have b: "?b \<noteq> []" by (simp add: trim_def)
  then have hb: "\<not> is_space (hd ?b)" using hd_dropWhile by blast
  have l: "last (trim s) = hd ?b" using b by (simp add: trim_def last_rev)
  have a: "?a \<noteq> []"
  proof
    assume "?a = []"
    with b show False by simp
  qed
  then have ha: "\<not> is_space (hd ?a)" using hd_dropWhile by blast
  obtain ys where ys: "rev ?a = ys @ ?b" 
    by (metis takeWhile_dropWhile_id)
  then have "?a = rev ?b @ rev ys" by (metis rev_append rev_rev_ident)
  then have "hd ?a = hd (rev ?b)" using b by (metis hd_append2 rev_is_Nil_conv)
  then have "\<not> is_space (hd (trim s))" using ha by (simp add: trim_def)
  with l hb show ?thesis by simp
qed

lemma trim_trim: "trim (trim s) = trim s"
proof (cases "trim s = []")
  case True
  then show ?thesis by (simp add: trim_empty)
next
  case False
  then show ?thesis using trim_shape[of s] by (intro trim_id) auto
qed

lemma floor_half: "nat (floor ((of_nat k :: rat) + 1 / 2)) = k"
proof -
  have "floor ((of_nat k :: rat) + 1 / 2) = int k"
    by (rule floor_unique) simp_all
  then show ?thesis by simp
qed

lemma decimal_literal_shape:
  assumes D: "D \<noteq> []" "\<forall>c \<in> set D. is_digit c" and F: "\<forall>c \<in> set F. is_digit c"
  shows "decimal_literal ((if neg then ''-'' else []) @ D @ ''.'' @ F) =
         Some (neg, of_nat (digits_val D) + of_nat (digits_val F) / 10 ^ length F)"
proof -
  have hdD: "hd D \<noteq> CHR ''-''" using D by (cases D) (auto simp: is_digit_not_special)
  have nd: "\<not> is_digit (CHR ''.'')" by (simp add: is_digit_def)
  have tw: "takeWhile is_digit (D @ CHR ''.'' # F) = D"
    using D nd by (simp add: takeWhile_append2)
  have dw: "dropWhile is_digit (D @ CHR ''.'' # F) = CHR ''.'' # F"
    using D nd by (simp add: dropWhile_append2)
  have twF: "takeWhile is_digit F = F" using F by simp
  show ?thesis
  proof (cases neg)
    case True
    then show ?thesis using D(1) by (simp add: decimal_literal_def tw dw twF nd)
  next
    case False
    then show ?thesis using D(1) hdD by (simp add: decimal_literal_def tw dw twF nd)
  qed
qed

lemma decimal_literal_nonneg: "decimal_literal s = Some (neg, v) \<Longrightarrow> 0 \<le> v"
  by (auto simp: decimal_literal_def Let_def split: if_splits)

lemma to_number_finite:
  assumes "to_number neg v = Finite s x" "0 \<le> v"
  shows "s = neg \<and> x = nearest_double v \<and> 0 \<le> x \<and> nearest_double x = x \<and> x < 2 ^ 1024"
  using assms nd_nonneg[of v] nd_idem[of v]
  by (auto simp: to_number_def Let_def split: if_splits)

lemma parseFloat_finite:
  assumes "parseFloat s = Finite neg x"
  shows "0 \<le> x \<and> nearest_double x = x \<and> x < 2 ^ 1024"
proof (cases "decimal_literal s")
  case None
  then show ?thesis using assms by (simp add: parseFloat_def)
next
  case (Some p)
  obtain n v where p: "p = (n, v)" by (cases p)
  from Some p have dl: "decimal_literal s = Some (n, v)" by simp
  from Some p assms have "to_number n v = Finite neg x" by (simp add: parseFloat_def)
  from to_number_finite[OF this decimal_literal_nonneg[OF dl]] show ?thesis by blast
qed

lemma parse_double:
  assumes "parseAmountForFormatting v = Some p"
  shows "0 \<le> snd p \<and> nearest_double (snd p) = snd p \<and> snd p < 2 ^ 1024"
proof -
  from assms obtain neg x where pf: "parseFloat (clean_amount (trim (normalizeEditableCellValue v))) = Finite neg x"
    and p: "snd p = x"
    by (auto simp: parseAmountForFormatting_def Let_def split: if_splits number.splits)
  from parseFloat_finite[OF pf] p show ?thesis by simp
qed

lemma clean_digits: "\<forall>c \<in> set ds. is_digit c \<Longrightarrow> clean_amount ds = ds"
  by (induction ds) (auto simp: clean_amount_def is_digit_not_special)

lemma clean_append: "clean_amount (xs @ ys) = clean_amount xs @ clean_amount ys"
  by (simp add: clean_amount_def)

lemma clean_grouped: "clean_amount (grouped n) = ungrouped (grouped n)"
proof -
  have "clean_amount (grouped n) = filter (\<lambda>c. is_digit c \<or> c = CHR ''.'' \<or> c = CHR ''-'') (ungrouped (grouped n))"
    by (simp add: clean_amount_def ungrouped_def)
  also have "\<dots> = ungrouped (grouped n)"
    using ungrouped_all[of n] by (simp add: filter_id_conv)
  finally show ?thesis .
qed

lemma ungrouped_nonempty: "ungrouped (grouped n) \<noteq> []"
proof -
  have "hd (grouped n) \<in> set (grouped n)" using grouped_nonempty by simp
  moreover have "hd (grouped n) \<noteq> CHR '',''" using grouped_hd is_digit_not_special by blast
  ultimately show ?thesis by (auto simp: ungrouped_def filter_empty_conv)
qed

lemma two_digits_val:
  "digits_val [digit_char (c mod 100 div 10), digit_char (c mod 10)] = c mod 100"
proof -
  have "digits_val [digit_char (c mod 100 div 10), digit_char (c mod 10)] = 10 * (c mod 100 div 10) + c mod 10"
    by (simp add: digits_val_def digit_val_digit_char)
  moreover have "c mod 100 mod 10 = c mod 10" by (simp add: mod_mod_cancel)
  then have "c mod 100 = 10 * (c mod 100 div 10) + c mod 10"
    by (metis mult_div_mod_eq)
  ultimately show ?thesis by simp
qed

lemma cents_split: "(of_nat (c div 100) :: rat) + of_nat (c mod 100) / 100 = of_nat c / 100"
proof -
  have "(of_nat c :: rat) = of_nat (c div 100 * 100 + c mod 100)" by (simp only: div_mult_mod_eq)
  also have "\<dots> = of_nat (c div 100) * 100 + of_nat (c mod 100)"
    by (simp only: of_nat_add of_nat_mult of_nat_numeral)
  finally show ?thesis by simp
qed

text \<open>What the formatted string is made of, and what it reads as.\<close>

lemma toLocaleString2_reads:
  "toLocaleString2 p \<noteq> [] \<and> trim (toLocaleString2 p) = toLocaleString2 p \<and>
   hd (toLocaleString2 p) \<noteq> CHR ''('' \<and>
   clean_amount (toLocaleString2 p) = ungrouped (toLocaleString2 p) \<and>
   length (clean_amount (toLocaleString2 p)) \<ge> 4 \<and>
   decimal_literal (ungrouped (toLocaleString2 p)) = Some (fst p, of_nat (hundredths (snd p)) / 100)"
proof -
  define cents where "cents = hundredths (snd p)"
  define d1 where "d1 = digit_char (cents mod 100 div 10)"
  define d2 where "d2 = digit_char (cents mod 10)"
  define sign where "sign = (if fst p then ''-'' else [])"
  define out where "out = toLocaleString2 p"
  have out: "out = sign @ grouped (cents div 100) @ ''.'' @ [d1, d2]"
    by (simp add: out_def toLocaleString2_def cents_def d1_def d2_def sign_def Let_def)
  have dd: "is_digit d1" "is_digit d2"
    by (simp_all add: d1_def d2_def is_digit_digit_char)
  have ne: "out \<noteq> []" by (simp add: out)
  have hd_out: "hd out = CHR ''-'' \<or> is_digit (hd out)"
    using grouped_hd[of "cents div 100"] grouped_nonempty[of "cents div 100"]
    by (simp add: out sign_def hd_append)
  then have hd1: "\<not> is_space (hd out)" "hd out \<noteq> CHR ''(''"
    using is_digit_not_special by (auto simp: is_space_def)
  have "last out = d2" by (simp add: out)
  then have l1: "\<not> is_space (last out)" using dd is_digit_not_special by simp
  have tr: "trim out = out" using ne hd1 l1 by (intro trim_id) auto
  have us: "ungrouped sign = sign" by (simp add: sign_def ungrouped_def)
  have ut: "ungrouped (''.'' @ [d1, d2]) = ''.'' @ [d1, d2]"
    using dd is_digit_not_special by (simp add: ungrouped_def)
  have un: "ungrouped out = sign @ ungrouped (grouped (cents div 100)) @ ''.'' @ [d1, d2]"
  proof -
    have "ungrouped out = ungrouped sign @ ungrouped (grouped (cents div 100)) @ ungrouped (''.'' @ [d1, d2])"
      by (simp add: out ungrouped_def)
    then show ?thesis by (simp only: us ut)
  qed
  have cl: "clean_amount out = sign @ ungrouped (grouped (cents div 100)) @ ''.'' @ [d1, d2]"
  proof -
    have "clean_amount sign = sign" by (simp add: sign_def clean_amount_def is_digit_def)
    moreover have "clean_amount (''.'' @ [d1, d2]) = ''.'' @ [d1, d2]"
      using dd is_digit_not_special by (simp add: clean_amount_def)
    ultimately show ?thesis by (simp add: out clean_append clean_grouped del: append.simps)
  qed
  have len: "length (clean_amount out) \<ge> 4"
    using ungrouped_nonempty[of "cents div 100"]
    by (cases "ungrouped (grouped (cents div 100))") (simp_all add: cl)
  have dv: "digits_val [d1, d2] = cents mod 100" by (simp add: d1_def d2_def two_digits_val)
  have "decimal_literal ((if fst p then ''-'' else []) @ ungrouped (grouped (cents div 100)) @ ''.'' @ [d1, d2]) =
       Some (fst p, of_nat (digits_val (ungrouped (grouped (cents div 100)))) + of_nat (digits_val [d1, d2]) / 10 ^ length [d1, d2])"
    using ungrouped_nonempty ungrouped_all dd by (intro decimal_literal_shape) auto
  then have "decimal_literal (ungrouped out) = Some (fst p, of_nat (cents div 100) + of_nat (cents mod 100) / 100)"
    by (simp add: un sign_def ungrouped_val dv)
  then have dl: "decimal_literal (ungrouped out) = Some (fst p, of_nat cents / 100)"
    by (simp only: cents_split)
  from ne tr hd1(2) cl un len dl show ?thesis by (simp add: out_def cents_def)
qed

lemma toLocaleString2_fixed:
  assumes "0 \<le> snd p" "nearest_double (snd p) = snd p" "snd p < 2 ^ 1024"
  shows "formatAmountCellValue (Some (toLocaleString2 p)) = toLocaleString2 p"
proof -
  define out where "out = toLocaleString2 p"
  define r :: rat where "r = of_nat (hundredths (snd p)) / 100"
  note R = toLocaleString2_reads[of p, folded out_def r_def]
  from R have ne: "out \<noteq> []" and tr: "trim out = out" and hd1: "hd out \<noteq> CHR ''(''"
    and cl: "clean_amount out = ungrouped out" and len: "length (clean_amount out) \<ge> 4"
    and dl: "decimal_literal (ungrouped out) = Some (fst p, r)" by blast+
  from len have nots: "clean_amount out \<noteq> []" "clean_amount out \<noteq> ''-''" "clean_amount out \<noteq> ''.''"
    "clean_amount out \<noteq> ''-.''" by auto
  from hundredths_stable[OF assms]
  have st: "hundredths (nearest_double r) = hundredths (snd p)" and fin: "nearest_double r < 2 ^ 1024"
    by (simp_all add: r_def)
  have pf: "parseFloat (clean_amount out) = Finite (fst p) (nearest_double r)"
    using fin by (simp add: parseFloat_def cl dl to_number_def Let_def)
  define q where "q = (fst p, nearest_double r)"
  have pa: "parseAmountForFormatting (Some out) = Some q"
    using ne hd1 nots by (simp add: parseAmountForFormatting_def normalizeEditableCellValue_def tr pf q_def Let_def)
  have "toLocaleString2 q = out"
    by (simp add: toLocaleString2_def out_def q_def st Let_def)
  then have "formatAmountCellValue (Some out) = out" using ne
    by (simp add: formatAmountCellValue_def normalizeEditableCellValue_def tr pa)
  then show ?thesis by (simp only: out_def)
qed

lemma unparsed_fixed:
  assumes "trim s \<noteq> []" "parseAmountForFormatting (Some (trim s)) = None"
  shows "formatAmountCellValue (Some (trim s)) = trim s"
  using assms by (simp add: formatAmountCellValue_def normalizeEditableCellValue_def trim_trim)

lemma format_empty: "formatAmountCellValue (Some []) = []"
  by (simp add: formatAmountCellValue_def normalizeEditableCellValue_def trim_def)

lemma parse_trim:
  "parseAmountForFormatting (Some (trim (normalizeEditableCellValue v))) = parseAmountForFormatting v"
  by (simp add: parseAmountForFormatting_def normalizeEditableCellValue_def trim_trim)

lemma groups3_short:
  "ds \<noteq> [] \<Longrightarrow> length ds \<le> 3 \<Longrightarrow> \<forall>c \<in> set ds. is_digit c \<Longrightarrow> groups3 (rev ds)"
  by (cases ds rule: groups3.cases) auto

lemma nat_digits_length: "n < 1000 \<Longrightarrow> length (nat_digits n) \<le> 3"
  by (simp add: nat_digits.simps[of n] nat_digits.simps[of "n div 10"] nat_digits.simps[of "n div 10 div 10"])

lemma groups3_grouped: "groups3 (rev (grouped n))"
proof (induction n rule: grouped.induct)
  case (1 n)
  show ?case
  proof (cases "n < 1000")
    case True
    then show ?thesis
      using groups3_short[OF nat_digits_nonempty nat_digits_length nat_digits_all, of n]
      by (simp add: grouped.simps[of n])
  next
    case False
    with 1 have "groups3 (rev (grouped (n div 1000)))" by simp
    then show ?thesis using False by (simp add: grouped.simps[of n] is_digit_digit_char)
  qed
qed

lemma toLocaleString2_shape: "two_decimal_grouped (toLocaleString2 p)"
proof -
  define cents where "cents = hundredths (snd p)"
  define G where "G = grouped (cents div 100)"
  define d1 where "d1 = digit_char (cents mod 100 div 10)"
  define d2 where "d2 = digit_char (cents mod 10)"
  define body where "body = G @ [CHR ''.'', d1, d2]"
  have dd: "is_digit d1" "is_digit d2" by (simp_all add: d1_def d2_def is_digit_digit_char)
  have G: "G \<noteq> []" "hd G \<noteq> CHR ''-''"
    using grouped_nonempty[of "cents div 100"] grouped_hd[of "cents div 100"] is_digit_not_special
    by (auto simp: G_def)
  have out: "toLocaleString2 p = (if fst p then ''-'' else []) @ body"
    by (simp add: toLocaleString2_def cents_def d1_def d2_def G_def body_def Let_def)
  have b: "(if toLocaleString2 p \<noteq> [] \<and> hd (toLocaleString2 p) = CHR ''-''
            then tl (toLocaleString2 p) else toLocaleString2 p) = body"
    using G by (simp add: out body_def hd_append)
  have n: "length body = length G + 3" by (simp add: body_def)
  have "body ! (length G + 2) = d2" "body ! (length G + 1) = d1" "body ! length G = CHR ''.''"
    by (simp_all add: body_def nth_append)
  moreover have "take (length G) body = G" by (simp add: body_def)
  moreover have "groups3 (rev G)" unfolding G_def by (rule groups3_grouped)
  moreover have "length G + 3 - 1 = length G + 2" "length G + 3 - 2 = length G + 1" by simp_all
  moreover have "1 \<le> length G" using G(1) by (cases G) simp_all
  ultimately show ?thesis using dd
    by (simp add: two_decimal_grouped_def b n Let_def)
qed

lemma hundredths_near:
  assumes "0 \<le> x"
  shows "\<bar>of_nat (hundredths x) / 100 - shortest_decimal x\<bar> \<le> 1 / 200"
proof -
  define q where "q = shortest_decimal x * 100 + 1 / 2"
  have "0 \<le> shortest_decimal x" by (rule shortest_decimal_nonneg[OF assms])
  then have "0 \<le> \<lfloor>q\<rfloor>" by (simp add: q_def)
  then have "(of_nat (hundredths x) :: rat) = of_int \<lfloor>q\<rfloor>" by (simp add: hundredths_def q_def)
  moreover have "of_int \<lfloor>q\<rfloor> \<le> q" "q < of_int \<lfloor>q\<rfloor> + 1" by linarith+
  ultimately have "of_nat (hundredths x) \<le> q" "q < of_nat (hundredths x) + 1" by simp_all
  then show ?thesis unfolding q_def by linarith
qed

subsection \<open>Doubles of given amounts\<close>

lemma nearest_doubleI:
  assumes "pow2 e \<le> x" "x < pow2 (e + 1)" "- 1022 \<le> e" "\<bar>x / pow2 (e - 52) - of_int n\<bar> < 1 / 2"
  shows "nearest_double x = of_int n * pow2 (e - 52)"
proof -
  have x: "x \<noteq> 0" using assms(1) pow2_pos[of e] by linarith
  have "floor_log2 x = e" using assms(1,2) by (rule floor_log2_unique)
  then have u: "ulp x = pow2 (e - 52)" using assms(3) by (simp add: ulp_def dexp_def)
  have "round_half_even (x / pow2 (e - 52)) = n" using assms(4) by (rule rhe_near)
  then show ?thesis using x u by (simp add: nd_mult)
qed

lemma nd_int: "0 \<le> n \<Longrightarrow> n \<le> 2 ^ 53 \<Longrightarrow> nearest_double (of_int n) = of_int n"
proof (cases "n = 0")
  case False
  assume "0 \<le> n" "n \<le> 2 ^ 53"
  with False have "0 < n" by simp
  from nd_fixed[OF this \<open>n \<le> 2 ^ 53\<close>, of 0] show ?thesis by (simp add: pow2_def)
qed simp

lemma nd_numeral: "numeral k \<le> (2 :: int) ^ 53 \<Longrightarrow> nearest_double (numeral k) = numeral k"
  using nd_int[of "numeral k"] by simp

lemma nd_79_99: "nearest_double (7999 / 100) = 5628795846771343 / 70368744177664"
  using nearest_doubleI[of 6 "7999 / 100" 5628795846771343] by (simp add: pow2_def)

lemma nd_cent: "nearest_double (1 / 100) = 5764607523034235 / 576460752303423488"
  using nearest_doubleI[of "- 7" "1 / 100" 5764607523034235] by (simp add: pow2_def)

lemma nd_diff: "nearest_double (703687441777 / 70368744177664) = 703687441777 / 70368744177664"
  using nearest_doubleI[of "- 7" "703687441777 / 70368744177664" 5764607523037184] by (simp add: pow2_def)

lemmas parse_defs = parseAmountForFormatting_def normalizeEditableCellValue_def trim_def is_space_def
  clean_amount_def is_digit_def parseFloat_def decimal_literal_def digits_val_def digit_val_def
  to_number_def num_val_def Let_def

lemma parse_100_00: "parseAmountForFormatting (Some ''100.00'') = Some (False, 100)"
  by (simp add: parse_defs nd_numeral)

lemma parse_20_00: "parseAmountForFormatting (Some ''20.00'') = Some (False, 20)"
  by (simp add: parse_defs nd_numeral)

lemma parse_79_99: "parseAmountForFormatting (Some ''79.99'') = Some (False, 5628795846771343 / 70368744177664)"
  by (simp add: parse_defs nd_79_99)

lemma parse_blank: "parseAmountForFormatting (Some []) = None"
  by (simp add: parse_defs)

lemma nd_1234_5: "nearest_double (2469 / 2) = 2469 / 2"
  using nd_fixed[of 2469 "- 1"] by (simp add: pow2_def)

lemma parse_1234_5: "parseAmountForFormatting (Some '' 1234.5 '') = Some (False, 2469 / 2)"
  by (simp add: parse_defs nd_1234_5)

lemma hundredths_1234_5: "hundredths (2469 / 2) = 123450"
  using hundredths_cents[of 123450] by (simp add: nd_1234_5)

lemma format_1234_5: "formatAmountCellValue (Some '' 1234.5 '') = ''1,234.50''"
proof -
  have t: "trim '' 1234.5 '' = ''1234.5''" by (simp add: trim_def is_space_def)
  have p: "parseAmountForFormatting (Some ''1234.5'') = Some (False, 2469 / 2)"
    using parse_trim[of "Some '' 1234.5 ''"] by (simp add: normalizeEditableCellValue_def t parse_1234_5)
  have "grouped 1 = ''1''"
    by (subst grouped.simps, subst nat_digits.simps) (simp add: digit_char_def)
  then have g: "grouped 1234 = ''1,234''"
    by (subst grouped.simps) (simp add: digit_char_def)
  show ?thesis
    by (simp add: formatAmountCellValue_def normalizeEditableCellValue_def t p toLocaleString2_def
        hundredths_1234_5 g digit_char_def Let_def)
qed

text \<open>
  Claim C10, as the code has it.  Amount normalisation is idempotent: for every cell
  value \<open>v\<close>, absent or any string, normalising the normalised value gives it back.  A
  value that does not parse as a finite number is returned trimmed (an absent or blank
  one as the empty string), and stays so.  A value that parses is shown as an optional
  minus sign, the integer digits in comma-separated groups of three, a dot and two
  fraction digits; what is shown is the number of hundredths nearest to the decimal
  digits of the parsed double, and it parses to a double that is shown the same.
\<close>

theorem formatAmountCellValue_idempotent:
  "formatAmountCellValue (Some (formatAmountCellValue v)) = formatAmountCellValue v \<and>
   (case parseAmountForFormatting v of
      None \<Rightarrow> formatAmountCellValue v = trim (normalizeEditableCellValue v)
    | Some n \<Rightarrow>
        two_decimal_grouped (formatAmountCellValue v) \<and>
        decimal_literal (ungrouped (formatAmountCellValue v)) = Some (fst n, of_nat (hundredths (snd n)) / 100) \<and>
        \<bar>of_nat (hundredths (snd n)) / 100 - shortest_decimal (snd n)\<bar> \<le> 1 / 200 \<and>
        nearest_double (shortest_decimal (snd n)) = snd n)"
proof -
  define raw where "raw = trim (normalizeEditableCellValue v)"
  have pt: "parseAmountForFormatting (Some raw) = parseAmountForFormatting v"
    unfolding raw_def by (rule parse_trim)
  show ?thesis
  proof (cases "parseAmountForFormatting v")
    case None
    have f: "formatAmountCellValue v = raw"
      using None pt by (simp add: formatAmountCellValue_def raw_def[symmetric])
    have "formatAmountCellValue (Some raw) = raw"
    proof (cases "raw = []")
      case True
      then show ?thesis by (simp add: format_empty)
    next
      case False
      then show ?thesis using None pt unfolding raw_def by (intro unparsed_fixed) simp_all
    qed
    then show ?thesis using None f by (simp add: raw_def)
  next
    case (Some n)
    then have ne: "raw \<noteq> []" by (auto simp: parseAmountForFormatting_def raw_def Let_def)
    have f: "formatAmountCellValue v = toLocaleString2 n"
      using Some pt ne by (simp add: formatAmountCellValue_def raw_def[symmetric])
    note d = parse_double[OF Some]
    from d have fixed: "formatAmountCellValue (Some (toLocaleString2 n)) = toLocaleString2 n"
      by (intro toLocaleString2_fixed) simp_all
    from d have nr: "\<bar>of_nat (hundredths (snd n)) / 100 - shortest_decimal (snd n)\<bar> \<le> 1 / 200"
      by (intro hundredths_near) simp
    from d have rb: "nearest_double (shortest_decimal (snd n)) = snd n"
      by (intro shortest_decimal_reads_back) simp
    from toLocaleString2_reads[of n]
    have dl: "decimal_literal (ungrouped (toLocaleString2 n)) = Some (fst n, of_nat (hundredths (snd n)) / 100)"
      by blast
    show ?thesis using Some fixed nr rb dl toLocaleString2_shape[of n] by (simp add: f)
  qed
qed

text \<open>
  The cell \<^verbatim>\<open>' 1234.5 '\<close> is shown as \<^verbatim>\<open>1,234.50\<close>, which is shown as itself.
\<close>

theorem formatAmountCellValue_idempotent_witness:
  "formatAmountCellValue (Some '' 1234.5 '') = ''1,234.50'' \<and>
   formatAmountCellValue (Some ''1,234.50'') = ''1,234.50'' \<and>
   two_decimal_grouped ''1,234.50'' \<and>
   decimal_literal (ungrouped ''1,234.50'') = Some (False, 2469 / 2)"
  using formatAmountCellValue_idempotent[of "Some '' 1234.5 ''"]
  by (simp add: format_1234_5 parse_1234_5 hundredths_1234_5)

text \<open>
  A value that does not parse is not returned unchanged: the blanks around it are cut.
\<close>

theorem unparsable_value_trimmed:
  "parseAmountForFormatting (Some '' abc '') = None \<and>
   formatAmountCellValue (Some '' abc '') = ''abc'' \<and>
   formatAmountCellValue (Some '' abc '') \<noteq> '' abc ''"
proof -
  have t: "trim '' abc '' = ''abc''" "trim ''abc'' = ''abc''" by (simp_all add: trim_def is_space_def)
  have c: "clean_amount ''abc'' = []" by (simp add: clean_amount_def is_digit_def)
  have p: "parseAmountForFormatting (Some '' abc '') = None" "parseAmountForFormatting (Some ''abc'') = None"
    by (simp_all add: parseAmountForFormatting_def normalizeEditableCellValue_def t c Let_def)
  have "formatAmountCellValue (Some '' abc '') = ''abc''"
    by (simp add: formatAmountCellValue_def normalizeEditableCellValue_def t p)
  with p show ?thesis by simp
qed

subsection \<open>The balance check\<close>

lemma mismatch_step_set:
  "set (mismatch_step P C) = (if shown_row_id C \<noteq> [] \<and> balance_inconsistent P C then {shown_row_id C} else {})"
  by (auto simp: mismatch_step_def balance_inconsistent_def shown_row_id_def Let_def split: option.splits)

lemma parse_small:
  "parseAmountForFormatting (Some ''100'') = Some (False, 100)"
  "parseAmountForFormatting (Some ''80'') = Some (False, 80)"
  "parseAmountForFormatting (Some ''90'') = Some (False, 90)"
  "parseAmountForFormatting (Some ''20'') = Some (False, 20)"
  "parseAmountForFormatting (Some ''5'') = Some (False, 5)"
  "parseAmountForFormatting (Some ''0'') = Some (False, 0)"
  by (simp_all add: parse_defs nd_numeral)

lemmas number_defs = js_sub_def number_of_def flow_or_zero_def to_number_def Let_def

lemma third_row_inconsistent:
  "balance_inconsistent (r\<lparr>balance := Some ''80''\<rparr>)
     (r'\<lparr>debit := Some ''0'', credit := Some ''5'', balance := Some ''90''\<rparr>)"
  by (simp add: balance_inconsistent_def parse_small number_defs nd_numeral nd_cent)

lemma trim_digit: "trim ''1'' = ''1''" "trim ''2'' = ''2''" "trim ''3'' = ''3''"
  by (simp_all add: trim_def is_space_def)

lemma one_cent_inconsistent:
  "balance_inconsistent (mk_row ''1'' [] [] ''100.00'') (mk_row ''2'' ''20.00'' [] ''79.99'')"
  by (simp add: balance_inconsistent_def mk_row_def parse_100_00 parse_20_00 parse_79_99 parse_blank
      number_defs nd_numeral nd_cent nd_diff)

lemma literal_defs:
  "decimal_literal ''100.00'' = Some (False, 100)"
  "decimal_literal ''20.00'' = Some (False, 20)"
  "decimal_literal ''79.99'' = Some (False, 7999 / 100)"
  by (simp_all add: decimal_literal_def is_digit_def digits_val_def digit_val_def Let_def)

text \<open>
  Claim C3, as the code has it.  The checker returns row identities, and it skips a row
  whose \<^verbatim>\<open>row_id\<close> is absent or blank.  So the set it returns holds exactly the trimmed
  \<^verbatim>\<open>row_id\<close> of every row C at an index \<open>i \<ge> 1\<close> whose \<^verbatim>\<open>row_id\<close> is not blank and
  for which, with P the row before it, both balances parse, the debit or the credit of
  C parses, and \<open>|C.balance - (P.balance - C.debit + C.credit)| > 0.01\<close>, a debit or
  credit that does not parse counting as 0.  The amounts are doubles, and so are the
  differences, the sum and \<open>0.01\<close>: each is the nearest double of its exact value.
\<close>

theorem computeBalanceMismatchRowIds_exact:
  "computeBalanceMismatchRowIds rows =
     {shown_row_id (rows ! i) | i. 1 \<le> i \<and> i < length rows \<and> shown_row_id (rows ! i) \<noteq> []
         \<and> balance_inconsistent (rows ! (i - 1)) (rows ! i)}"
proof (cases "length rows < 2")
  case True
  then have "\<not> (\<exists>i. 1 \<le> i \<and> i < length rows)" by auto
  then show ?thesis using True by (auto simp: computeBalanceMismatchRowIds_def)
next
  case False
  then show ?thesis
    by (auto simp: computeBalanceMismatchRowIds_def mismatch_step_set split: if_splits)
qed

text \<open>
  The rows of the specification's example, balances 100, 80 and 90 with a debit of 20
  and then a credit of 5: the third row is flagged.
\<close>

theorem computeBalanceMismatchRowIds_exact_witness:
  "''3'' \<in> computeBalanceMismatchRowIds
      [mk_row ''1'' [] [] ''100'', mk_row ''2'' ''20'' ''0'' ''80'', mk_row ''3'' ''0'' ''5'' ''90'']"
proof -
  let ?rows = "[mk_row ''1'' [] [] ''100'', mk_row ''2'' ''20'' ''0'' ''80'', mk_row ''3'' ''0'' ''5'' ''90'']"
  have a: "shown_row_id (?rows ! 2) = ''3''"
    by (simp add: shown_row_id_def mk_row_def str_or_def trim_digit)
  have b: "balance_inconsistent (?rows ! (2 - 1)) (?rows ! 2)"
    using third_row_inconsistent[of "mk_row ''2'' ''20'' ''0'' ''80''" "mk_row ''3'' ''0'' ''5'' ''90''"]
    by (simp add: mk_row_def)
  have c: "(1::nat) \<le> 2 \<and> 2 < length ?rows" by simp
  from a b c have "\<exists>i. ''3'' = shown_row_id (?rows ! i) \<and> 1 \<le> i \<and> i < length ?rows \<and>
      shown_row_id (?rows ! i) \<noteq> [] \<and> balance_inconsistent (?rows ! (i - 1)) (?rows ! i)"
    by (intro exI[of _ 2]) (simp del: One_nat_def)
  then show ?thesis
    unfolding computeBalanceMismatchRowIds_exact[of ?rows] by blast
qed

text \<open>
  The same three rows as the specification writes them, without a \<^verbatim>\<open>row_id\<close>: the
  balance of the third row is inconsistent with the second, and no row is flagged.  And
  a balance of 79.99 after 100.00 and a debit of 20.00 is off by one cent exactly, which
  is not more than 0.01; yet the row is flagged, since the double of 79.99 is further
  from 80 than the double of 0.01 is from 0.
\<close>

theorem no_id_unflagged_one_cent_flagged:
  "balance_inconsistent (bare_row (Some ''20'') (Some ''0'') ''80'') (bare_row (Some ''0'') (Some ''5'') ''90'') \<and>
   computeBalanceMismatchRowIds
     [bare_row None None ''100'', bare_row (Some ''20'') (Some ''0'') ''80'',
      bare_row (Some ''0'') (Some ''5'') ''90''] = {} \<and>
   decimal_literal ''100.00'' = Some (False, 100) \<and>
   decimal_literal ''20.00'' = Some (False, 20) \<and>
   decimal_literal ''79.99'' = Some (False, 7999 / 100) \<and>
   \<bar>(7999 / 100 :: rat) - (100 - 20)\<bar> = 1 / 100 \<and>
   computeBalanceMismatchRowIds [mk_row ''1'' [] [] ''100.00'', mk_row ''2'' ''20.00'' [] ''79.99''] = {''2''}"
proof -
  have a: "balance_inconsistent (bare_row (Some ''20'') (Some ''0'') ''80'') (bare_row (Some ''0'') (Some ''5'') ''90'')"
    using third_row_inconsistent[of "bare_row (Some ''20'') (Some ''0'') ''80''" "bare_row (Some ''0'') (Some ''5'') ''90''"]
    by (simp add: bare_row_def)
  have b: "computeBalanceMismatchRowIds
     [bare_row None None ''100'', bare_row (Some ''20'') (Some ''0'') ''80'',
      bare_row (Some ''0'') (Some ''5'') ''90''] = {}"
    by (simp add: computeBalanceMismatchRowIds_def mismatch_step_def bare_row_def str_or_def trim_def upt_rec)
  have c: "computeBalanceMismatchRowIds [mk_row ''1'' [] [] ''100.00'', mk_row ''2'' ''20.00'' [] ''79.99''] = {''2''}"
  proof -
    have "shown_row_id (mk_row ''2'' ''20.00'' [] ''79.99'') = ''2''"
      by (simp add: shown_row_id_def mk_row_def str_or_def trim_digit)
    then show ?thesis
      using one_cent_inconsistent by (simp add: computeBalanceMismatchRowIds_def mismatch_step_set upt_rec)
  qed
  from a b c literal_defs show ?thesis by simp
qed

subsection \<open>Progress shown and progress stored\<close>

lemma trim_nonempty: "trim s \<noteq> [] \<Longrightarrow> s \<noteq> []"
  by (auto simp: trim_def)

lemma updateUploadedJobIfExists_shown [simp]:
  "jobProgressShown (updateUploadedJobIfExists partial st) = jobProgressShown st"
  by (simp add: updateUploadedJobIfExists_def Let_def split: option.splits)




lemma trim_a: "trim ''a'' = ''a''"
  by (simp add: trim_def is_space_def)

lemma trim_b: "trim ''b'' = ''b''"
  by (simp add: trim_def is_space_def)




subsection \<open>Reconciling the cached jobs\<close>

lemma reconcile_loop_no401:
  "\<not> list_ex (unauthorized fetch) rows \<Longrightarrow>
   reconcile_loop fetch rows acc = Some (acc @ concat (map (reconciled fetch) rows))"
proof (induction rows arbitrary: acc)
  case Nil
  then show ?case by simp
next
  case (Cons r rows)
  then have ih: "\<And>acc. reconcile_loop fetch rows acc = Some (acc @ concat (map (reconciled fetch) rows))"
    by simp
  from Cons.prems have nu: "\<not> unauthorized fetch r" by simp
  show ?case
  proof (cases "trim (str_of (lj_jobId r)) = []")
    case True
    then show ?thesis by (simp add: ih reconciled_def[of fetch r])
  next
    case False
    then show ?thesis using nu
      by (cases "fetch (trim (str_of (lj_jobId r)))")
         (auto simp: ih reconciled_def[of fetch r] unauthorized_def Let_def res_ok_def split: option.splits)
  qed
qed

lemma reconcile_loop_401:
  "list_ex (unauthorized fetch) rows \<Longrightarrow> reconcile_loop fetch rows acc = None"
proof (induction rows arbitrary: acc)
  case Nil
  then show ?case by simp
next
  case (Cons r rows)
  show ?case
  proof (cases "unauthorized fetch r")
    case True
    then show ?thesis
      by (cases "fetch (trim (str_of (lj_jobId r)))") (auto simp: unauthorized_def Let_def)
  next
    case False
    with Cons have ih: "\<And>acc. reconcile_loop fetch rows acc = None" by simp
    show ?thesis
      by (cases "fetch (trim (str_of (lj_jobId r)))") (auto simp: ih Let_def split: option.splits)
  qed
qed

text \<open>
  Claim C5, as the code has it.  In a reconciliation pass over the cached records (the
  first 100) in which no status request is answered with 401, every record becomes what
  \<open>reconciled\<close> says:
  a 404 removes it; a network error, another failure status or an unreadable body keeps
  it unchanged; a success replaces its status, step and progress and nothing else.  A
  pass with a 401 is given up and leaves the list as it was.  In the merged record the
  status and the step are the server's when the response has them (not empty), else the
  local ones (with \<^verbatim>\<open>'queued'\<close> for a status known to neither); the progress is the
  server's when the response has one, else the local one, else 0.
\<close>

theorem reconcile_per_record:
  "(\<not> list_ex (unauthorized fetch) (take 100 (uploadedJobs st)) \<longrightarrow>
      uploadedJobs (reconcileStoredJobsStatuses fetch st) =
        concat (map (reconciled fetch) (take 100 (uploadedJobs st)))) \<and>
   (list_ex (unauthorized fetch) (take 100 (uploadedJobs st)) \<longrightarrow>
      uploadedJobs (reconcileStoredJobsStatuses fetch st) = uploadedJobs st) \<and>
   (\<forall>r p. lj_jobId (merge_status r p) = lj_jobId r \<and> lj_fileName (merge_status r p) = lj_fileName r \<and>
      lj_sizeBytes (merge_status r p) = lj_sizeBytes r \<and> lj_lastModified (merge_status r p) = lj_lastModified r \<and>
      lj_createdAt (merge_status r p) = lj_createdAt r \<and> lj_parseMode (merge_status r p) = lj_parseMode r \<and>
      lj_status (merge_status r p) =
        Some (if truthy (pl_status p) then str_of (pl_status p)
              else if truthy (lj_status r) then str_of (lj_status r) else ''queued'') \<and>
      lj_step (merge_status r p) =
        Some (if truthy (pl_step p) then str_of (pl_step p) else str_of (lj_step r)) \<and>
      lj_progress (merge_status r p) =
        Some (case pl_progress p of Some n \<Rightarrow> n
              | None \<Rightarrow> (case lj_progress r of Some m \<Rightarrow> m | None \<Rightarrow> 0)))"
proof (intro conjI impI allI)
  assume a: "\<not> list_ex (unauthorized fetch) (take 100 (uploadedJobs st))"
  show "uploadedJobs (reconcileStoredJobsStatuses fetch st) =
        concat (map (reconciled fetch) (take 100 (uploadedJobs st)))"
    using reconcile_loop_no401[OF a, of "[]"] by (simp add: reconcileStoredJobsStatuses_def)
next
  assume a: "list_ex (unauthorized fetch) (take 100 (uploadedJobs st))"
  show "uploadedJobs (reconcileStoredJobsStatuses fetch st) = uploadedJobs st"
    using reconcile_loop_401[OF a, of "[]"] by (simp add: reconcileStoredJobsStatuses_def)
qed (simp_all add: merge_status_def truthy_def str_of_def str_or_def split: option.splits)

lemma trim_c: "trim ''c'' = ''c''"
  by (simp add: trim_def is_space_def)

text \<open>
  Three cached jobs: \<open>a\<close> is answered with 404, \<open>b\<close> with 503 and \<open>c\<close> with a status
  payload.  The first goes, the second stays, the third is merged.
\<close>

theorem reconcile_per_record_witness:
  "uploadedJobs (reconcileStoredJobsStatuses fetch_demo (state0\<lparr>uploadedJobs := [job_a, job_b, job_c]\<rparr>)) =
     [job_b, job_c\<lparr>lj_status := Some ''processing'', lj_step := Some ''step'', lj_progress := Some 40\<rparr>]"
proof -
  let ?st = "state0\<lparr>uploadedJobs := [job_a, job_b, job_c]\<rparr>"
  have ids: "trim (str_of (lj_jobId job_a)) = ''a''" "trim (str_of (lj_jobId job_b)) = ''b''"
    "trim (str_of (lj_jobId job_c)) = ''c''"
    by (simp_all add: job_a_def job_b_def job_c_def str_of_def str_or_def trim_a trim_b trim_c)
  have j: "take 100 (uploadedJobs ?st) = [job_a, job_b, job_c]" by simp
  have n: "\<not> list_ex (unauthorized fetch_demo) (take 100 (uploadedJobs ?st))"
    by (simp add: j unauthorized_def ids fetch_demo_def)
  have r: "concat (map (reconciled fetch_demo) (take 100 (uploadedJobs ?st))) =
        [job_b, merge_status job_c (status_only ''processing'')]"
    by (simp add: j reconciled_def ids fetch_demo_def res_ok_def)
  have m: "merge_status job_c (status_only ''processing'') =
        job_c\<lparr>lj_status := Some ''processing'', lj_step := Some ''step'', lj_progress := Some 40\<rparr>"
    by (simp add: merge_status_def status_only_def str_or_def)
  from reconcile_per_record[of fetch_demo ?st] n r m show ?thesis by simp
qed

text \<open>
  Two cached jobs: \<open>a\<close> is answered with 404 and \<open>b\<close>, after it, with 401.  The pass is
  given up, the browser goes to the login page, and \<open>a\<close> is still in the list.
\<close>

theorem gone_job_kept_when_pass_aborts:
  "uploadedJobs (reconcileStoredJobsStatuses fetch_abort (state0\<lparr>uploadedJobs := [job_a, job_b]\<rparr>))
     = [job_a, job_b] \<and>
   redirectedToLogin (reconcileStoredJobsStatuses fetch_abort (state0\<lparr>uploadedJobs := [job_a, job_b]\<rparr>))"
proof -
  have ids: "trim (str_of (lj_jobId job_a)) = ''a''" "trim (str_of (lj_jobId job_b)) = ''b''"
    by (simp_all add: job_a_def job_b_def str_of_def str_or_def trim_a trim_b)
  have "reconcile_loop fetch_abort [job_a, job_b] [] = None"
    by (simp add: ids fetch_abort_def)
  then show ?thesis by (simp add: reconcileStoredJobsStatuses_def)
qed

subsection \<open>Beginning to process an attachment\<close>

lemma persistPageRows_send_crm [simp]:
  "crmProcessByAttachment (persistPageRows_send page st) = crmProcessByAttachment st"
  by (simp add: persistPageRows_send_def Let_def split: option.splits)

lemma fold_send_crm [simp]:
  "crmProcessByAttachment (fold persistPageRows_send ps st) = crmProcessByAttachment st"
  by (induction ps arbitrary: st) simp_all

lemma flush_crm [simp]:
  "crmProcessByAttachment (flushPendingPageSaves st) = crmProcessByAttachment st"
  by (simp add: flushPendingPageSaves_def Let_def)

text \<open>
  Claim C6, as the code has it.  The click on the button changes no binding: it disables
  the button, relabels it and sends the request.  When the request fails, whatever the
  state \<open>st'\<close> then is, the bindings stay as they are and the button is enabled again
  with the label it had (\<^verbatim>\<open>'Begin Process'\<close> for an empty one).  When the request
  succeeds with a job id, the attachment is bound to that job with status
  \<^verbatim>\<open>queued\<close>, only then; a response without a job id counts as a failure.
\<close>

theorem begin_process_binding:
  "crmProcessByAttachment (fst (begin_process_click attr btn st)) = crmProcessByAttachment st \<and>
   (\<forall>msg. crmProcessByAttachment (fst (begin_process_response att (priorLabel btn) (Inl msg) btn' st'))
            = crmProcessByAttachment st' \<and>
          snd (begin_process_response att (priorLabel btn) (Inl msg) btn' st')
            = btn'\<lparr>disabled := False, textContent := priorLabel btn\<rparr>) \<and>
   (\<forall>job_id. trim (str_of job_id) \<noteq> [] \<longrightarrow>
      map_of (crmProcessByAttachment (fst (begin_process_response att (priorLabel btn) (Inr job_id) btn' st'))) att
        = Some \<lparr>b_jobId = trim (str_of job_id), b_status = ''queued'', b_step = ''queued'', b_progress = 0\<rparr>) \<and>
   (\<forall>job_id. trim (str_of job_id) = [] \<longrightarrow>
      crmProcessByAttachment (fst (begin_process_response att (priorLabel btn) (Inr job_id) btn' st'))
        = crmProcessByAttachment st' \<and>
      snd (begin_process_response att (priorLabel btn) (Inr job_id) btn' st')
        = btn'\<lparr>disabled := False, textContent := priorLabel btn\<rparr>)"
  by (auto simp: begin_process_click_def begin_process_response_def begin_process_failed_def
      setActiveJob_def Let_def update_conv')

lemma trim_att: "trim ''att-1'' = ''att-1''"
  by (simp add: trim_def is_space_def)

lemma trim_job9: "trim ''job-9'' = ''job-9''"
  by (simp add: trim_def is_space_def)

text \<open>
  The attachment \<open>att-1\<close> in the initial state: no binding after the click, the button
  restored after a failure, the binding to \<open>job-9\<close> after a success.
\<close>

theorem begin_process_binding_witness:
  "crmProcessByAttachment (fst (begin_process_click ''att-1'' begin_button state0)) = [] \<and>
   snd (begin_process_click ''att-1'' begin_button state0) = \<lparr>disabled = True, textContent = starting_label\<rparr> \<and>
   snd (begin_process_response ''att-1'' (priorLabel begin_button) (Inl ''boom'')
          (snd (begin_process_click ''att-1'' begin_button state0))
          (fst (begin_process_click ''att-1'' begin_button state0))) = begin_button \<and>
   map_of (crmProcessByAttachment
      (fst (begin_process_response ''att-1'' (priorLabel begin_button) (Inr (Some ''job-9''))
          (snd (begin_process_click ''att-1'' begin_button state0))
          (fst (begin_process_click ''att-1'' begin_button state0))))) ''att-1'' =
     Some \<lparr>b_jobId = ''job-9'', b_status = ''queued'', b_step = ''queued'', b_progress = 0\<rparr>"
proof -
  let ?c = "begin_process_click ''att-1'' begin_button state0"
  have j: "trim (str_of (Some ''job-9'')) = ''job-9''" by (simp add: str_of_def str_or_def trim_job9)
  have b: "snd ?c = \<lparr>disabled = True, textContent = starting_label\<rparr>"
    by (simp add: begin_process_click_def trim_att begin_button_def)
  have p: "priorLabel begin_button = ''Begin Process''" by (simp add: priorLabel_def begin_button_def str_or_def)
  have z: "crmProcessByAttachment state0 = []" by (simp add: state0_def)
  note T = begin_process_binding[where attr="''att-1''" and btn=begin_button and st=state0 and att="''att-1''"
      and btn'="snd ?c" and st'="fst ?c"]
  from T have c1: "crmProcessByAttachment (fst ?c) = []" by (simp only: z)
  from T have "snd (begin_process_response ''att-1'' (priorLabel begin_button) (Inl ''boom'') (snd ?c) (fst ?c))
        = (snd ?c)\<lparr>disabled := False, textContent := priorLabel begin_button\<rparr>" by blast
  also have "\<dots> = \<lparr>disabled = False, textContent = ''Begin Process''\<rparr>" by (simp add: b p)
  also have "\<dots> = begin_button" by (simp add: begin_button_def)
  finally have c2: "snd (begin_process_response ''att-1'' (priorLabel begin_button) (Inl ''boom'') (snd ?c) (fst ?c))
        = begin_button" .
  have "trim (str_of (Some ''job-9'')) \<noteq> []" by (simp add: j)
  with T have "map_of (crmProcessByAttachment
      (fst (begin_process_response ''att-1'' (priorLabel begin_button) (Inr (Some ''job-9'')) (snd ?c) (fst ?c)))) ''att-1'' =
     Some \<lparr>b_jobId = trim (str_of (Some ''job-9'')), b_status = ''queued'', b_step = ''queued'', b_progress = 0\<rparr>"
    by blast
  then have c3: "map_of (crmProcessByAttachment
      (fst (begin_process_response ''att-1'' (priorLabel begin_button) (Inr (Some ''job-9'')) (snd ?c) (fst ?c)))) ''att-1'' =
     Some \<lparr>b_jobId = ''job-9'', b_status = ''queued'', b_step = ''queued'', b_progress = 0\<rparr>"
    by (simp only: j)
  from c1 b c2 c3 show ?thesis by (intro conjI)
qed

text \<open>
  After the click and before any response, the request is out and the attachment has
  no binding.
\<close>

theorem no_binding_before_response:
  "map_of (crmProcessByAttachment (fst (begin_process_click ''att-1'' begin_button state0))) ''att-1'' = None \<and>
   requests (fst (begin_process_click ''att-1'' begin_button state0)) = [PostBeginProcess ''att-1'']"
  by (simp add: begin_process_click_def trim_att state0_def)

subsection \<open>What each function leaves alone\<close>

lemma send_frame [simp]:
  "pollTimer (persistPageRows_send p st) = pollTimer st"
  "jobId (persistPageRows_send p st) = jobId st"
  "pageSaveTimers (persistPageRows_send p st) = pageSaveTimers st"
  "now (persistPageRows_send p st) = now st"
  "parsedByPage (persistPageRows_send p st) = parsedByPage st"
  "currentPage (persistPageRows_send p st) = currentPage st"
  "selectedRowId (persistPageRows_send p st) = selectedRowId st"
  "alerts (persistPageRows_send p st) = alerts st"
  "resultLoads (persistPageRows_send p st) = resultLoads st"
  "filter is_poll (requests (persistPageRows_send p st)) = filter is_poll (requests st)"
  by (simp_all add: persistPageRows_send_def Let_def split: option.splits)

lemma fold_send_frame [simp]:
  "pollTimer (fold persistPageRows_send ps st) = pollTimer st"
  "jobId (fold persistPageRows_send ps st) = jobId st"
  "pageSaveTimers (fold persistPageRows_send ps st) = pageSaveTimers st"
  "now (fold persistPageRows_send ps st) = now st"
  "parsedByPage (fold persistPageRows_send ps st) = parsedByPage st"
  "currentPage (fold persistPageRows_send ps st) = currentPage st"
  "selectedRowId (fold persistPageRows_send ps st) = selectedRowId st"
  "alerts (fold persistPageRows_send ps st) = alerts st"
  "resultLoads (fold persistPageRows_send ps st) = resultLoads st"
  "filter is_poll (requests (fold persistPageRows_send ps st)) = filter is_poll (requests st)"
  by (induction ps arbitrary: st) simp_all

lemma flush_frame [simp]:
  "pollTimer (flushPendingPageSaves st) = pollTimer st"
  "jobId (flushPendingPageSaves st) = jobId st"
  "now (flushPendingPageSaves st) = now st"
  "parsedByPage (flushPendingPageSaves st) = parsedByPage st"
  "currentPage (flushPendingPageSaves st) = currentPage st"
  "selectedRowId (flushPendingPageSaves st) = selectedRowId st"
  "alerts (flushPendingPageSaves st) = alerts st"
  "resultLoads (flushPendingPageSaves st) = resultLoads st"
  "filter is_poll (requests (flushPendingPageSaves st)) = filter is_poll (requests st)"
  by (simp_all add: flushPendingPageSaves_def Let_def)

lemma update_jobs_frame [simp]:
  "pollTimer (updateUploadedJobIfExists partial st) = pollTimer st"
  "jobId (updateUploadedJobIfExists partial st) = jobId st"
  "pageSaveTimers (updateUploadedJobIfExists partial st) = pageSaveTimers st"
  "pageSaveTokenByPage (updateUploadedJobIfExists partial st) = pageSaveTokenByPage st"
  "now (updateUploadedJobIfExists partial st) = now st"
  "requests (updateUploadedJobIfExists partial st) = requests st"
  "alerts (updateUploadedJobIfExists partial st) = alerts st"
  "resultLoads (updateUploadedJobIfExists partial st) = resultLoads st"
  "parsedByPage (updateUploadedJobIfExists partial st) = parsedByPage st"
  "currentPage (updateUploadedJobIfExists partial st) = currentPage st"
  "selectedRowId (updateUploadedJobIfExists partial st) = selectedRowId st"
  by (simp_all add: updateUploadedJobIfExists_def Let_def split: option.splits)

lemma setStatus_frame [simp]:
  "pollTimer (setStatus payload st) = pollTimer st"
  "jobId (setStatus payload st) = jobId st"
  "pageSaveTimers (setStatus payload st) = pageSaveTimers st"
  "pageSaveTokenByPage (setStatus payload st) = pageSaveTokenByPage st"
  "now (setStatus payload st) = now st"
  "requests (setStatus payload st) = requests st"
  "alerts (setStatus payload st) = alerts st"
  "resultLoads (setStatus payload st) = resultLoads st"
  "parsedByPage (setStatus payload st) = parsedByPage st"
  "currentPage (setStatus payload st) = currentPage st"
  "selectedRowId (setStatus payload st) = selectedRowId st"
  by (simp_all add: setStatus_def Let_def)

lemma loadResultData_frame [simp]:
  "pollTimer (loadResultData st) = pollTimer st"
  "jobId (loadResultData st) = jobId st"
  "alerts (loadResultData st) = alerts st"
  "resultLoads (loadResultData st) = resultLoads st + 1"
  "filter is_poll (requests (loadResultData st)) = filter is_poll (requests st)"
  by (simp_all add: loadResultData_def)





lemma recompute_frame [simp]:
  "pollTimer (recomputeTotalParsedRows st) = pollTimer st"
  "jobId (recomputeTotalParsedRows st) = jobId st"
  "pageSaveTimers (recomputeTotalParsedRows st) = pageSaveTimers st"
  "pageSaveTokenByPage (recomputeTotalParsedRows st) = pageSaveTokenByPage st"
  "now (recomputeTotalParsedRows st) = now st"
  "requests (recomputeTotalParsedRows st) = requests st"
  "parsedByPage (recomputeTotalParsedRows st) = parsedByPage st"
  "currentPage (recomputeTotalParsedRows st) = currentPage st"
  "selectedRowId (recomputeTotalParsedRows st) = selectedRowId st"
  by (simp_all add: recomputeTotalParsedRows_def)

lemma renderRows_frame [simp]:
  "pollTimer (renderRows st) = pollTimer st"
  "jobId (renderRows st) = jobId st"
  "pageSaveTimers (renderRows st) = pageSaveTimers st"
  "pageSaveTokenByPage (renderRows st) = pageSaveTokenByPage st"
  "now (renderRows st) = now st"
  "requests (renderRows st) = requests st"
  "currentPage (renderRows st) = currentPage st"
  "selectedRowId (renderRows st) = selectedRowId st"
  by (simp_all add: renderRows_def split: option.splits)

lemma queue_frame [simp]:
  "pollTimer (queuePageRowsSave p st) = pollTimer st"
  "jobId (queuePageRowsSave p st) = jobId st"
  "pageSaveTokenByPage (queuePageRowsSave p st) = pageSaveTokenByPage st"
  "now (queuePageRowsSave p st) = now st"
  "requests (queuePageRowsSave p st) = requests st"
  "parsedByPage (queuePageRowsSave p st) = parsedByPage st"
  "currentPage (queuePageRowsSave p st) = currentPage st"
  "selectedRowId (queuePageRowsSave p st) = selectedRowId st"
  by (simp_all add: queuePageRowsSave_def Let_def)

lemma input_frame [simp]:
  "pollTimer (input_event p e st) = pollTimer st"
  "jobId (input_event p e st) = jobId st"
  "pageSaveTokenByPage (input_event p e st) = pageSaveTokenByPage st"
  "now (input_event p e st) = now st"
  "requests (input_event p e st) = requests st"
  "currentPage (input_event p e st) = currentPage st"
  by (simp_all add: input_event_def split: prod.splits)

lemma reverse_frame [simp]:
  "pollTimer (reverseCurrentPageRows st) = pollTimer st"
  "jobId (reverseCurrentPageRows st) = jobId st"
  "pageSaveTokenByPage (reverseCurrentPageRows st) = pageSaveTokenByPage st"
  "now (reverseCurrentPageRows st) = now st"
  "requests (reverseCurrentPageRows st) = requests st"
  "currentPage (reverseCurrentPageRows st) = currentPage st"
  by (simp_all add: reverseCurrentPageRows_def Let_def)

lemma timer_fire_frame [simp]:
  "pollTimer (timer_fire p st) = pollTimer st"
  "jobId (timer_fire p st) = jobId st"
  "now (timer_fire p st) = now st"
  "parsedByPage (timer_fire p st) = parsedByPage st"
  "currentPage (timer_fire p st) = currentPage st"
  "filter is_poll (requests (timer_fire p st)) = filter is_poll (requests st)"
  by (simp_all add: timer_fire_def)

lemma fold_fire_frame [simp]:
  "pollTimer (fold timer_fire ps st) = pollTimer st"
  "jobId (fold timer_fire ps st) = jobId st"
  "now (fold timer_fire ps st) = now st"
  "parsedByPage (fold timer_fire ps st) = parsedByPage st"
  "currentPage (fold timer_fire ps st) = currentPage st"
  "filter is_poll (requests (fold timer_fire ps st)) = filter is_poll (requests st)"
  by (induction ps arbitrary: st) simp_all

lemma advance_frame [simp]:
  "pollTimer (advance dt st) = pollTimer st"
  "jobId (advance dt st) = jobId st"
  "now (advance dt st) = now st + dt"
  "parsedByPage (advance dt st) = parsedByPage st"
  "currentPage (advance dt st) = currentPage st"
  "filter is_poll (requests (advance dt st)) = filter is_poll (requests st)"
  by (simp_all add: advance_def)

lemma apply_rows_frame [simp]:
  "pollTimer (apply_rows p prows st) = pollTimer st"
  "jobId (apply_rows p prows st) = jobId st"
  "pageSaveTimers (apply_rows p prows st) = pageSaveTimers st"
  "pageSaveTokenByPage (apply_rows p prows st) = pageSaveTokenByPage st"
  "now (apply_rows p prows st) = now st"
  "requests (apply_rows p prows st) = requests st"
  "currentPage (apply_rows p prows st) = currentPage st"
  by (simp_all add: apply_rows_def Let_def split: option.splits)

lemma receive_frame [simp]:
  "pollTimer (persistPageRows_receive p t payload st) = pollTimer st"
  "jobId (persistPageRows_receive p t payload st) = jobId st"
  "pageSaveTimers (persistPageRows_receive p t payload st) = pageSaveTimers st"
  "pageSaveTokenByPage (persistPageRows_receive p t payload st) = pageSaveTokenByPage st"
  "now (persistPageRows_receive p t payload st) = now st"
  "requests (persistPageRows_receive p t payload st) = requests st"
  "currentPage (persistPageRows_receive p t payload st) = currentPage st"
  by (simp_all add: persistPageRows_receive_def Let_def split: option.splits)

lemma save_failed_frame [simp]:
  "pollTimer (persistPageRows_failed msg st) = pollTimer st"
  "jobId (persistPageRows_failed msg st) = jobId st"
  "pageSaveTimers (persistPageRows_failed msg st) = pageSaveTimers st"
  "pageSaveTokenByPage (persistPageRows_failed msg st) = pageSaveTokenByPage st"
  "now (persistPageRows_failed msg st) = now st"
  "requests (persistPageRows_failed msg st) = requests st"
  by (simp_all add: persistPageRows_failed_def)

lemma load_fetch_frame [simp]:
  "pollTimer (loadResultData_fetch st) = pollTimer st"
  "jobId (loadResultData_fetch st) = jobId st"
  "pageSaveTimers (loadResultData_fetch st) = pageSaveTimers st"
  "pageSaveTokenByPage (loadResultData_fetch st) = pageSaveTokenByPage st"
  "now (loadResultData_fetch st) = now st"
  "filter is_poll (requests (loadResultData_fetch st)) = filter is_poll (requests st)"
  by (simp_all add: loadResultData_fetch_def split: option.splits)

lemma load_page_frame [simp]:
  "pollTimer (loadCurrentPageData st) = pollTimer st"
  "jobId (loadCurrentPageData st) = jobId st"
  "pageSaveTimers (loadCurrentPageData st) = pageSaveTimers st"
  "pageSaveTokenByPage (loadCurrentPageData st) = pageSaveTokenByPage st"
  "now (loadCurrentPageData st) = now st"
  "parsedByPage (loadCurrentPageData st) = parsedByPage st"
  "boundsByPage (loadCurrentPageData st) = boundsByPage st"
  "openaiRawByPage (loadCurrentPageData st) = openaiRawByPage st"
  "currentPage (loadCurrentPageData st) = currentPage st"
  "pages (loadCurrentPageData st) = pages st"
  "filter is_poll (requests (loadCurrentPageData st)) = filter is_poll (requests st)"
  by (simp_all add: loadCurrentPageData_def split: option.splits)

lemma load_apply_frame [simp]:
  "pollTimer (loadResultData_apply cleaned summ st) = pollTimer st"
  "jobId (loadResultData_apply cleaned summ st) = jobId st"
  "pageSaveTimers (loadResultData_apply cleaned summ st) = pageSaveTimers st"
  "pageSaveTokenByPage (loadResultData_apply cleaned summ st) = pageSaveTokenByPage st"
  "now (loadResultData_apply cleaned summ st) = now st"
  "filter is_poll (requests (loadResultData_apply cleaned summ st)) = filter is_poll (requests st)"
  by (simp_all add: loadResultData_apply_def Let_def)

lemma poll_failed_frame [simp]:
  "pollTimer (pollStatus_failed msg st) = False"
  "jobId (pollStatus_failed msg st) = jobId st"
  "pageSaveTimers (pollStatus_failed msg st) = pageSaveTimers st"
  "pageSaveTokenByPage (pollStatus_failed msg st) = pageSaveTokenByPage st"
  "now (pollStatus_failed msg st) = now st"
  "requests (pollStatus_failed msg st) = requests st"
  by (simp_all add: pollStatus_failed_def stopPolling_def)

lemma pollStatus_frame [simp]:
  "pollTimer (pollStatus st) = pollTimer st"
  "jobId (pollStatus st) = jobId st"
  "pageSaveTimers (pollStatus st) = pageSaveTimers st"
  "pageSaveTokenByPage (pollStatus st) = pageSaveTokenByPage st"
  "now (pollStatus st) = now st"
  by (simp_all add: pollStatus_def split: option.splits)

lemma pollStatus_response_jobId [simp]: "jobId (pollStatus_response r st) = jobId st"
  by (cases r) (simp_all add: pollStatus_response_def Let_def stopPolling_def)


lemma pollStatus_response_polls [simp]:
  "filter is_poll (requests (pollStatus_response r st)) = filter is_poll (requests st)"
  by (cases r) (simp_all add: pollStatus_response_def Let_def stopPolling_def)

lemma step_jobId [simp]: "jobId (step e st) = jobId st"
  by (cases e) (simp_all add: poll_tick_def)



lemma run_jobId [simp]: "jobId (run evs st) = jobId st"
  by (induction evs arbitrary: st) (simp_all add: run_def)

subsection \<open>The poll loop\<close>







lemma update_jobs_text [simp]:
  "jobStatusText (updateUploadedJobIfExists partial st) = jobStatusText st"
  by (simp add: updateUploadedJobIfExists_def Let_def split: option.splits)












subsection \<open>Debounced saves\<close>

lemma trim_p1: "trim ''p1'' = ''p1''"
  by (simp add: trim_def is_space_def)

lemma truthy_Some: "truthy v \<Longrightarrow> \<exists>s. v = Some s \<and> s \<noteq> []"
  by (cases v) (simp_all add: truthy_def)

lemma send_saves_len:
  assumes "truthy (jobId st)"
  shows "length (saves_of q (persistPageRows_send p st)) =
         length (saves_of q st) + (if trim p = q \<and> q \<noteq> [] then 1 else 0)"
proof -
  from truthy_Some[OF assms] obtain jid where j: "jobId st = Some jid" "jid \<noteq> []" by blast
  then show ?thesis by (auto simp: persistPageRows_send_def Let_def saves_of_def)
qed

lemma truthy_send [simp]: "truthy (jobId (persistPageRows_send p st)) = truthy (jobId st)"
  by simp

lemma fire_saves_len:
  assumes "truthy (jobId st)" "trim k = k"
  shows "length (saves_of q (timer_fire k st)) = length (saves_of q st) + (if k = q \<and> q \<noteq> [] then 1 else 0)"
proof -
  have "truthy (jobId (st\<lparr>pageSaveTimers := AList.delete k (pageSaveTimers st)\<rparr>))" using assms by simp
  from send_saves_len[OF this, of q k] assms(2) show ?thesis
    by (simp add: timer_fire_def saves_of_def)
qed

lemma fold_fire_saves_len:
  assumes "truthy (jobId st)" "\<forall>k \<in> set ks. trim k = k" "q \<noteq> []"
  shows "length (saves_of q (fold timer_fire ks st)) = length (saves_of q st) + length (filter (\<lambda>k. k = q) ks)"
  using assms
proof (induction ks arbitrary: st)
  case Nil
  then show ?case by simp
next
  case (Cons k ks)
  have t: "truthy (jobId (timer_fire k st))" using Cons.prems(1) by simp
  have k: "trim k = k" using Cons.prems(2) by simp
  have r: "\<forall>k \<in> set ks. trim k = k" using Cons.prems(2) by simp
  from Cons.IH[OF t r Cons.prems(3)] fire_saves_len[OF Cons.prems(1) k, of q] Cons.prems(3)
  show ?case by auto
qed

lemma fire_timers: "pageSaveTimers (timer_fire k st) = filter (\<lambda>e. fst e \<noteq> k) (pageSaveTimers st)"
proof -
  have "AList.delete k xs = filter (\<lambda>e. fst e \<noteq> k) xs" for xs :: "(string \<times> nat) list"
    by (induction xs) auto
  then show ?thesis by (simp add: timer_fire_def)
qed

lemma fold_fire_timers:
  "pageSaveTimers (fold timer_fire ks st) = filter (\<lambda>e. fst e \<notin> set ks) (pageSaveTimers st)"
proof (induction ks arbitrary: st)
  case Nil
  then show ?case by simp
next
  case (Cons k ks)
  have "filter (\<lambda>e. fst e \<notin> set ks) (filter (\<lambda>e. fst e \<noteq> k) xs) =
        filter (\<lambda>e. fst e \<notin> set (k # ks)) xs" for xs :: "(string \<times> nat) list"
    by (induction xs) auto
  then show ?case by (simp add: Cons.IH fire_timers)
qed

lemma due_count:
  "length (filter (\<lambda>k. k = q) (due_timers t st)) =
   length (filter (\<lambda>e. fst e = q \<and> snd e \<le> t) (pageSaveTimers st))"
proof -
  have "filter (\<lambda>k. k = q) (due_timers t st) =
        map fst (filter (\<lambda>e. fst e = q) (sort_key snd (filter (\<lambda>e. snd e \<le> t) (pageSaveTimers st))))"
    by (simp add: due_timers_def filter_map comp_def)
  also have "filter (\<lambda>e. fst e = q) (sort_key snd (filter (\<lambda>e. snd e \<le> t) (pageSaveTimers st))) =
        sort_key snd (filter (\<lambda>e. fst e = q) (filter (\<lambda>e. snd e \<le> t) (pageSaveTimers st)))"
    by (rule filter_sort)
  finally show ?thesis by (simp add: conj_commute)
qed

lemma due_set: "set (due_timers t st) = fst ` {e \<in> set (pageSaveTimers st). snd e \<le> t}"
  by (simp add: due_timers_def)

lemma advance_saves_len:
  assumes "truthy (jobId st)" "keys_trimmed st" "q \<noteq> []"
  shows "length (saves_of q (advance dt st)) =
         length (saves_of q st) + length (filter (\<lambda>e. fst e = q \<and> snd e \<le> now st + dt) (pageSaveTimers st))"
proof -
  have tr: "\<forall>k \<in> set (due_timers (now st + dt) st). trim k = k"
    using assms(2) by (auto simp: due_set keys_trimmed_def list_all_iff)
  have "saves_of q (advance dt st) = saves_of q (fold timer_fire (due_timers (now st + dt) st) st)"
    by (simp add: advance_def saves_of_def)
  then show ?thesis using fold_fire_saves_len[OF assms(1) tr assms(3)] by (simp add: due_count)
qed

lemma advance_timers:
  "pageSaveTimers (advance dt st) =
     filter (\<lambda>e. fst e \<notin> set (due_timers (now st + dt) st)) (pageSaveTimers st)"
  by (simp add: advance_def fold_fire_timers)

lemma advance_keys_trimmed: "keys_trimmed st \<Longrightarrow> keys_trimmed (advance dt st)"
  by (simp add: keys_trimmed_def advance_timers list_all_iff)

lemma filter_delete_key: "filter (\<lambda>e. fst e = q) (AList.delete q xs) = []"
  by (induction xs) auto

lemma queue_timers:
  assumes "truthy (jobId st)" "trim p \<noteq> []"
  shows "pageSaveTimers (queuePageRowsSave p st) =
         AList.delete (trim p) (pageSaveTimers st) @ [(trim p, now st + ROW_SAVE_DEBOUNCE_MS)]"
  using assms by (simp add: queuePageRowsSave_def Let_def)

lemma queue_pending:
  assumes "truthy (jobId st)" "trim p \<noteq> []"
  shows "pending (trim p) (now st + ROW_SAVE_DEBOUNCE_MS) (queuePageRowsSave p st)"
  by (simp add: pending_def queue_timers[OF assms] filter_delete_key)

lemma delete_subset: "set (AList.delete k xs) \<subseteq> set xs"
  by (induction xs) auto

lemma queue_keys_trimmed:
  assumes "keys_trimmed st"
  shows "keys_trimmed (queuePageRowsSave p st)"
proof (cases "truthy (jobId st) \<and> trim p \<noteq> []")
  case True
  then show ?thesis using assms delete_subset[of "trim p" "pageSaveTimers st"]
    by (auto simp: keys_trimmed_def queue_timers list_all_iff trim_trim)
next
  case False
  then show ?thesis using assms by (auto simp: queuePageRowsSave_def Let_def)
qed

lemma input_timers [simp]:
  "pageSaveTimers (input_event p e st) = pageSaveTimers (queuePageRowsSave p st)"
  by (simp add: input_event_def queuePageRowsSave_def Let_def split: prod.splits)

lemma input_saves [simp]: "saves_of q (input_event p e st) = saves_of q st"
  by (simp add: saves_of_def)

lemma input_pending:
  assumes "truthy (jobId st)" "trim p \<noteq> []"
  shows "pending (trim p) (now st + ROW_SAVE_DEBOUNCE_MS) (input_event p e st)"
  using queue_pending[OF assms] by (simp add: pending_def)

lemma input_keys_trimmed: "keys_trimmed st \<Longrightarrow> keys_trimmed (input_event p e st)"
  using queue_keys_trimmed[of st p] by (simp add: keys_trimmed_def)

lemma pending_map_of: "pending q dl st \<Longrightarrow> map_of (pageSaveTimers st) q = Some dl"
proof -
  assume a: "pending q dl st"
  have h: "map_of (filter (\<lambda>e. fst e = q) xs) q = map_of xs q" for xs :: "(string \<times> nat) list"
    by (induction xs) auto
  from a have "map_of (filter (\<lambda>e. fst e = q) (pageSaveTimers st)) q = Some dl"
    by (simp add: pending_def)
  then show ?thesis by (simp only: h)
qed

lemma advance_not_due:
  assumes "truthy (jobId st)" "keys_trimmed st" "q \<noteq> []" "pending q dl st" "now st + dt < dl"
  shows "pending q dl (advance dt st)" and "length (saves_of q (advance dt st)) = length (saves_of q st)"
proof -
  have f: "filter (\<lambda>e. fst e = q \<and> snd e \<le> now st + dt) (pageSaveTimers st) = []"
  proof -
    have "filter (\<lambda>e. fst e = q \<and> snd e \<le> now st + dt) (pageSaveTimers st) =
          filter (\<lambda>e. snd e \<le> now st + dt) (filter (\<lambda>e. fst e = q) (pageSaveTimers st))"
      by (simp add: conj_commute)
    also have "\<dots> = filter (\<lambda>e. snd e \<le> now st + dt) [(q, dl)]"
      using assms(4) by (simp only: pending_def)
    also have "\<dots> = []" using assms(5) by simp
    finally show ?thesis .
  qed
  show "length (saves_of q (advance dt st)) = length (saves_of q st)"
    using advance_saves_len[OF assms(1-3), of dt] f by simp
  have nd: "q \<notin> set (due_timers (now st + dt) st)"
  proof
    assume "q \<in> set (due_timers (now st + dt) st)"
    then have "filter (\<lambda>k. k = q) (due_timers (now st + dt) st) \<noteq> []"
      by (auto simp: filter_empty_conv)
    then show False using due_count[of q "now st + dt" st] f by simp
  qed
  have "filter (\<lambda>e. fst e = q) (filter (\<lambda>e. fst e \<notin> D) xs) = filter (\<lambda>e. fst e = q) xs"
    if "q \<notin> D" for xs :: "(string \<times> nat) list" and D
    using that by (induction xs) auto
  from this[OF nd] have "filter (\<lambda>e. fst e = q) (pageSaveTimers (advance dt st)) =
        filter (\<lambda>e. fst e = q) (pageSaveTimers st)"
    by (simp only: advance_timers)
  then show "pending q dl (advance dt st)" using assms(4) by (simp add: pending_def)
qed

lemma advance_due:
  assumes "truthy (jobId st)" "keys_trimmed st" "q \<noteq> []" "pending q dl st" "dl \<le> now st + dt"
  shows "length (saves_of q (advance dt st)) = length (saves_of q st) + 1"
proof -
  have "filter (\<lambda>e. fst e = q \<and> snd e \<le> now st + dt) (pageSaveTimers st) =
          filter (\<lambda>e. snd e \<le> now st + dt) (filter (\<lambda>e. fst e = q) (pageSaveTimers st))"
    by (simp add: conj_commute)
  also have "\<dots> = filter (\<lambda>e. snd e \<le> now st + dt) [(q, dl)]"
    using assms(4) by (simp only: pending_def)
  also have "\<dots> = [(q, dl)]" using assms(5) by simp
  finally have "filter (\<lambda>e. fst e = q \<and> snd e \<le> now st + dt) (pageSaveTimers st) = [(q, dl)]" .
  then show ?thesis using advance_saves_len[OF assms(1-3), of dt] by simp
qed

lemma edits_invariant:
  assumes "truthy (jobId st)" "keys_trimmed st" "trim page \<noteq> []"
    and "\<forall>g \<in> set (map fst rest). g < ROW_SAVE_DEBOUNCE_MS"
  shows "truthy (jobId (edits page e rest st)) \<and> keys_trimmed (edits page e rest st) \<and>
         pending (trim page) (now (edits page e rest st) + ROW_SAVE_DEBOUNCE_MS) (edits page e rest st) \<and>
         length (saves_of (trim page) (edits page e rest st)) = length (saves_of (trim page) st)"
  using assms
proof (induction rest arbitrary: e st)
  case Nil
  then show ?case by (simp add: input_pending input_keys_trimmed)
next
  case (Cons ge rest)
  obtain gap e' where ge: "ge = (gap, e')" by (cases ge)
  let ?s1 = "input_event page e st"
  let ?s2 = "advance gap ?s1"
  have g: "gap < ROW_SAVE_DEBOUNCE_MS" using Cons.prems(4) ge by simp
  have t1: "truthy (jobId ?s1)" using Cons.prems(1) by simp
  have k1: "keys_trimmed ?s1" using Cons.prems(2) by (rule input_keys_trimmed)
  have p1: "pending (trim page) (now ?s1 + ROW_SAVE_DEBOUNCE_MS) ?s1"
    using input_pending[OF Cons.prems(1,3)] by simp
  have lt: "now ?s1 + gap < now ?s1 + ROW_SAVE_DEBOUNCE_MS" using g by simp
  note nd = advance_not_due[OF t1 k1 Cons.prems(3) p1 lt]
  have t2: "truthy (jobId ?s2)" using t1 by simp
  have k2: "keys_trimmed ?s2" using k1 by (rule advance_keys_trimmed)
  have r: "\<forall>g \<in> set (map fst rest). g < ROW_SAVE_DEBOUNCE_MS" using Cons.prems(4) by simp
  from Cons.IH[OF t2 k2 Cons.prems(3) r, of e'] nd(2)
  show ?case by (simp add: ge)
qed

text \<open>
  Claim C4.  With a job open and a page name that is not blank, an edit sets the page's
  timer to 220 ms from now, replacing the one it had.  So \<open>N\<close> edits of the page, each
  less than 220 ms after the one before (here \<open>N\<close> is one more than the length of
  \<open>rest\<close>), leave the page with a single timer, due 220 ms after the last of them;
  they send no save while they last and exactly one once 220 ms have passed without an
  edit.
\<close>

theorem debounce_coalesces:
  assumes "truthy (jobId st)" "trim page \<noteq> []" "keys_trimmed st"
    and "\<forall>g \<in> set (map fst rest). g < ROW_SAVE_DEBOUNCE_MS"
    and "ROW_SAVE_DEBOUNCE_MS \<le> quiet"
  shows "ROW_SAVE_DEBOUNCE_MS = 220 \<and>
     map_of (pageSaveTimers (input_event page e st)) (trim page) = Some (now st + ROW_SAVE_DEBOUNCE_MS) \<and>
     pending (trim page) (now (edits page e rest st) + ROW_SAVE_DEBOUNCE_MS) (edits page e rest st) \<and>
     length (saves_of (trim page) (edits page e rest st)) = length (saves_of (trim page) st) \<and>
     length (saves_of (trim page) (advance quiet (edits page e rest st))) = length (saves_of (trim page) st) + 1"
proof -
  let ?s = "edits page e rest st"
  from edits_invariant[OF assms(1,3,2,4), of e]
  have t: "truthy (jobId ?s)" and k: "keys_trimmed ?s"
    and p: "pending (trim page) (now ?s + ROW_SAVE_DEBOUNCE_MS) ?s"
    and l: "length (saves_of (trim page) ?s) = length (saves_of (trim page) st)" by simp_all
  have d: "now ?s + ROW_SAVE_DEBOUNCE_MS \<le> now ?s + quiet" using assms(5) by simp
  from advance_due[OF t k assms(2) p d] l
  have "length (saves_of (trim page) (advance quiet ?s)) = length (saves_of (trim page) st) + 1" by simp
  moreover have "map_of (pageSaveTimers (input_event page e st)) (trim page) = Some (now st + ROW_SAVE_DEBOUNCE_MS)"
    using pending_map_of[OF input_pending[OF assms(1,2), of e]] .
  ultimately show ?thesis using l p by (simp add: ROW_SAVE_DEBOUNCE_MS_def)
qed

lemma state_p1_simps:
  "jobId state_p1 = Some ''a''" "currentPage state_p1 = Some ''p1''" "pageSaveTimers state_p1 = []"
  "requests state_p1 = []" "now state_p1 = 0" "pageSaveTokenByPage state_p1 = Map.empty"
  "parsedByPage state_p1 = [(''p1'', [mk_row ''001'' ''20'' [] ''80'', mk_row ''002'' [] ''5'' ''85''])]"
  by (simp_all add: state_p1_def state_a_def state0_def)

lemma state_p1_ready:
  "truthy (jobId state_p1)" "keys_trimmed state_p1" "saves_of q state_p1 = []"
  "rows_of state_p1 ''p1'' = [mk_row ''001'' ''20'' [] ''80'', mk_row ''002'' [] ''5'' ''85'']"
  "token_of state_p1 q = 0"
  by (simp_all add: state_p1_simps truthy_def keys_trimmed_def saves_of_def rows_of_def token_of_def)

text \<open>
  Three edits of the first debit of page \<open>p1\<close>, 100 ms apart: the first sets the timer
  to 220, nothing is sent during the edits, one save is sent 220 ms after the last.
\<close>

theorem debounce_coalesces_witness:
  "map_of (pageSaveTimers (input_event ''p1'' (0, Debit, ''2'') state_p1)) ''p1'' = Some 220 \<and>
   length (saves_of ''p1'' (edits ''p1'' (0, Debit, ''2'') [(100, (0, Debit, ''25'')), (100, (0, Debit, ''250''))] state_p1)) = 0 \<and>
   length (saves_of ''p1'' (advance 220
      (edits ''p1'' (0, Debit, ''2'') [(100, (0, Debit, ''25'')), (100, (0, Debit, ''250''))] state_p1))) = 1"
proof -
  have g: "\<forall>g \<in> set (map fst [(100::nat, (0::nat, Debit, ''25'')), (100, (0, Debit, ''250''))]). g < ROW_SAVE_DEBOUNCE_MS"
    by (simp add: ROW_SAVE_DEBOUNCE_MS_def)
  have q: "ROW_SAVE_DEBOUNCE_MS \<le> 220" by (simp add: ROW_SAVE_DEBOUNCE_MS_def)
  have ne: "trim ''p1'' \<noteq> []" by (simp add: trim_p1)
  from debounce_coalesces[OF state_p1_ready(1) ne state_p1_ready(2) g q, of "(0, Debit, ''2'')"]
  show ?thesis by (simp add: state_p1_ready state_p1_simps trim_p1 ROW_SAVE_DEBOUNCE_MS_def)
qed

subsection \<open>Reversing the rows\<close>

lemma assign_cells_gen:
  "map cells (map (\<lambda>e. (snd e)\<lparr>row_id := Some (default_row_id (fst e) (snd e))\<rparr>) (enumerate n xs)) = map cells xs"
  by (induction xs arbitrary: n) (simp_all add: cells_def)

lemma assign_cells: "map cells (assign_row_ids xs) = map cells xs"
  by (simp only: assign_row_ids_def assign_cells_gen)

lemma assign_length [simp]: "length (assign_row_ids xs) = length xs"
  by (simp add: assign_row_ids_def)

lemma assign_ok_gen:
  "list_all row_id_ok xs \<Longrightarrow>
   map (\<lambda>e. (snd e)\<lparr>row_id := Some (default_row_id (fst e) (snd e))\<rparr>) (enumerate n xs) = xs"
proof (induction xs arbitrary: n)
  case Nil
  then show ?case by simp
next
  case (Cons r xs)
  then obtain s where s: "row_id r = Some s" "s \<noteq> []" "trim s = s"
    by (auto simp: row_id_ok_def split: option.splits)
  then have "default_row_id n r = s" by (simp add: default_row_id_def str_of_def str_or_def)
  then have "r\<lparr>row_id := Some (default_row_id n r)\<rparr> = r" using s by simp
  then show ?case using Cons by simp
qed

lemma assign_ok: "list_all row_id_ok xs \<Longrightarrow> assign_row_ids xs = xs"
  by (simp add: assign_row_ids_def assign_ok_gen)

lemma rendered_cells: "map cells (rendered c p xs) = map cells xs"
  by (simp add: rendered_def assign_cells)

lemma rendered_length [simp]: "length (rendered c p xs) = length xs"
  by (simp add: rendered_def)

lemma rendered_ok: "list_all row_id_ok xs \<Longrightarrow> rendered c p xs = xs"
  by (simp add: rendered_def assign_ok)

lemma rows_of_update_entry:
  "rows_of (st\<lparr>parsedByPage := AList.map_entry c f (AList.update page v (parsedByPage st))\<rparr>) page =
     (if c = page then f v else v)"
  by (simp add: rows_of_def map_of_map_entry update_conv')

lemma rows_of_cong: "parsedByPage s = parsedByPage t \<Longrightarrow> rows_of s p = rows_of t p"
  by (simp add: rows_of_def)

lemma str_of_trim_Some: "trim (str_of v) \<noteq> [] \<Longrightarrow> \<exists>c. v = Some c \<and> c \<noteq> [] \<and> str_of v = c"
  by (cases v) (auto simp: str_of_def str_or_def trim_def)

lemma reverse_unfold:
  assumes "currentPage st = Some c" "trim c \<noteq> []" "2 \<le> length (rows_of st (trim c))"
  shows "reverseCurrentPageRows st =
     queuePageRowsSave (trim c)
       ((recomputeTotalParsedRows (st\<lparr>parsedByPage := AList.update (trim c) (rev (rows_of st (trim c))) (parsedByPage st)\<rparr>))
          \<lparr>parsedByPage := AList.map_entry c assign_row_ids
              (AList.update (trim c) (rev (rows_of st (trim c))) (parsedByPage st))\<rparr>)"
proof -
  from assms(2) have c: "c \<noteq> []" by (rule trim_nonempty)
  then have s: "str_of (Some c) = c" by (simp add: str_of_def str_or_def)
  show ?thesis using assms c
    by (simp add: reverseCurrentPageRows_def s Let_def renderRows_def)
qed

lemma reverse_rows:
  assumes "currentPage st = Some c" "trim c \<noteq> []" "2 \<le> length (rows_of st (trim c))"
  shows "rows_of (reverseCurrentPageRows st) (trim c) = rendered c (trim c) (rev (rows_of st (trim c)))"
proof -
  have "rows_of (reverseCurrentPageRows st) (trim c) =
     rows_of (st\<lparr>parsedByPage := AList.map_entry c assign_row_ids
              (AList.update (trim c) (rev (rows_of st (trim c))) (parsedByPage st))\<rparr>) (trim c)"
    by (rule rows_of_cong) (simp add: reverse_unfold[OF assms])
  then show ?thesis by (simp only: rows_of_update_entry rendered_def)
qed

lemma reverse_rows_length:
  assumes "currentPage st = Some c" "trim c \<noteq> []" "2 \<le> length (rows_of st (trim c))"
  shows "length (rows_of (reverseCurrentPageRows st) (trim c)) = length (rows_of st (trim c))"
  by (simp only: reverse_rows[OF assms] rendered_length length_rev)

lemma reverse_timers:
  assumes "currentPage st = Some c" "trim c \<noteq> []" "2 \<le> length (rows_of st (trim c))"
  shows "pageSaveTimers (reverseCurrentPageRows st) = pageSaveTimers (queuePageRowsSave (trim c) st)"
  by (simp add: reverse_unfold[OF assms] queuePageRowsSave_def Let_def recomputeTotalParsedRows_def)

lemma reverse_pending:
  assumes "truthy (jobId st)" "currentPage st = Some c" "trim c \<noteq> []" "2 \<le> length (rows_of st (trim c))"
  shows "pending (trim c) (now st + ROW_SAVE_DEBOUNCE_MS) (reverseCurrentPageRows st)"
proof -
  have t: "trim (trim c) \<noteq> []" using assms(3) by (simp add: trim_trim)
  from queue_pending[OF assms(1) t] show ?thesis
    by (simp add: pending_def reverse_timers[OF assms(2-4)] trim_trim)
qed

lemma reverse_keys_trimmed: "keys_trimmed st \<Longrightarrow> keys_trimmed (reverseCurrentPageRows st)"
proof -
  assume k: "keys_trimmed st"
  have "pageSaveTimers (reverseCurrentPageRows st) = pageSaveTimers st \<or>
        (\<exists>p. pageSaveTimers (reverseCurrentPageRows st) = pageSaveTimers (queuePageRowsSave p st))"
    by (auto simp: reverseCurrentPageRows_def Let_def queuePageRowsSave_def)
  then show ?thesis using k queue_keys_trimmed[OF k] by (auto simp: keys_trimmed_def)
qed

lemma reverse_saves [simp]: "saves_of q (reverseCurrentPageRows st) = saves_of q st"
  by (simp add: saves_of_def)

lemma advance_rows [simp]: "rows_of (advance dt st) p = rows_of st p"
  by (rule rows_of_cong) simp

lemma double_reverse_rows:
  assumes "currentPage st = Some c" "trim c \<noteq> []" "2 \<le> length (rows_of st (trim c))"
  shows "map cells (rows_of (reverseCurrentPageRows (advance d (reverseCurrentPageRows st))) (trim c)) =
           map cells (rows_of st (trim c))"
    and "list_all row_id_ok (rows_of st (trim c)) \<Longrightarrow>
         rows_of (reverseCurrentPageRows (advance d (reverseCurrentPageRows st))) (trim c) = rows_of st (trim c)"
proof -
  let ?p = "trim c"
  let ?s2 = "advance d (reverseCurrentPageRows st)"
  have r1: "rows_of ?s2 ?p = rendered c ?p (rev (rows_of st ?p))"
    using reverse_rows[OF assms] by simp
  have c2: "currentPage ?s2 = Some c" using assms(1) by simp
  have l2: "2 \<le> length (rows_of ?s2 ?p)" using assms(3) reverse_rows_length[OF assms] by simp
  note r2 = reverse_rows[OF c2 assms(2) l2]
  have "map cells (rows_of (reverseCurrentPageRows ?s2) ?p) =
        map cells (rev (rendered c ?p (rev (rows_of st ?p))))"
    by (simp only: r2 r1 rendered_cells)
  also have "\<dots> = rev (map cells (rendered c ?p (rev (rows_of st ?p))))" by (simp only: rev_map)
  also have "\<dots> = rev (map cells (rev (rows_of st ?p)))" by (simp only: rendered_cells)
  also have "\<dots> = map cells (rows_of st ?p)" by (simp only: rev_map[symmetric] rev_rev_ident)
  finally show "map cells (rows_of (reverseCurrentPageRows ?s2) ?p) = map cells (rows_of st ?p)" .
  assume ok: "list_all row_id_ok (rows_of st ?p)"
  then have "list_all row_id_ok (rev (rows_of st ?p))" by (simp add: list_all_iff)
  then have a: "rendered c ?p (rev (rows_of st ?p)) = rev (rows_of st ?p)" by (rule rendered_ok)
  have "rows_of (reverseCurrentPageRows ?s2) ?p = rendered c ?p (rev (rev (rows_of st ?p)))"
    by (simp only: r2 r1 a)
  also have "\<dots> = rows_of st ?p" using ok by (simp only: rev_rev_ident rendered_ok)
  finally show "rows_of (reverseCurrentPageRows ?s2) ?p = rows_of st ?p" .
qed

lemma double_reverse_saves:
  assumes "truthy (jobId st)" "currentPage st = Some c" "trim c \<noteq> []" "2 \<le> length (rows_of st (trim c))"
    and "keys_trimmed st" "ROW_SAVE_DEBOUNCE_MS \<le> quiet"
  shows "length (saves_of (trim c) (advance quiet (reverseCurrentPageRows (advance d (reverseCurrentPageRows st))))) =
         length (saves_of (trim c) st) + (if d < ROW_SAVE_DEBOUNCE_MS then 1 else 2)"
    and "map_of (pageSaveTimers (reverseCurrentPageRows st)) (trim c) = Some (now st + ROW_SAVE_DEBOUNCE_MS)"
    and "map_of (pageSaveTimers (reverseCurrentPageRows (advance d (reverseCurrentPageRows st)))) (trim c)
           = Some (now st + d + ROW_SAVE_DEBOUNCE_MS)"
proof -
  let ?p = "trim c"
  let ?s1 = "reverseCurrentPageRows st"
  let ?s2 = "advance d ?s1"
  let ?s3 = "reverseCurrentPageRows ?s2"
  have p1: "pending ?p (now st + ROW_SAVE_DEBOUNCE_MS) ?s1" by (rule reverse_pending[OF assms(1-4)])
  have k1: "keys_trimmed ?s1" using assms(5) by (rule reverse_keys_trimmed)
  have t1: "truthy (jobId ?s1)" using assms(1) by simp
  have n1: "now ?s1 = now st" by simp
  have t2: "truthy (jobId ?s2)" using assms(1) by simp
  have k2: "keys_trimmed ?s2" using k1 by (rule advance_keys_trimmed)
  have c2: "currentPage ?s2 = Some c" using assms(2) by simp
  have l2: "2 \<le> length (rows_of ?s2 ?p)" using assms(4) reverse_rows_length[OF assms(2-4)] by simp
  have p3: "pending ?p (now ?s2 + ROW_SAVE_DEBOUNCE_MS) ?s3" by (rule reverse_pending[OF t2 c2 assms(3) l2])
  have k3: "keys_trimmed ?s3" using k2 by (rule reverse_keys_trimmed)
  have t3: "truthy (jobId ?s3)" using assms(1) by simp
  have n3: "now ?s3 = now st + d" by simp
  have due3: "now ?s2 + ROW_SAVE_DEBOUNCE_MS \<le> now ?s3 + quiet" using assms(6) by simp
  have last: "length (saves_of ?p (advance quiet ?s3)) = length (saves_of ?p ?s2) + 1"
    using advance_due[OF t3 k3 assms(3) p3 due3] by simp
  show "length (saves_of ?p (advance quiet ?s3)) =
         length (saves_of ?p st) + (if d < ROW_SAVE_DEBOUNCE_MS then 1 else 2)"
  proof (cases "d < ROW_SAVE_DEBOUNCE_MS")
    case True
    then have "now ?s1 + d < now st + ROW_SAVE_DEBOUNCE_MS" by simp
    from advance_not_due(2)[OF t1 k1 assms(3) p1 this] last True show ?thesis by simp
  next
    case False
    then have "now st + ROW_SAVE_DEBOUNCE_MS \<le> now ?s1 + d" by simp
    from advance_due[OF t1 k1 assms(3) p1 this] last False show ?thesis by simp
  qed
  show "map_of (pageSaveTimers ?s1) ?p = Some (now st + ROW_SAVE_DEBOUNCE_MS)"
    using pending_map_of[OF p1] .
  show "map_of (pageSaveTimers ?s3) ?p = Some (now st + d + ROW_SAVE_DEBOUNCE_MS)"
    using pending_map_of[OF p3] by simp
qed

text \<open>
  Claim C9, as the code has it.  With a job open on a page of at least two rows,
  reversing twice gives the rows back in their order (the very rows when each has a
  \<^verbatim>\<open>row_id\<close>, as after rendering), and each reversal sets the page's save timer to 220 ms
  from then.  The saves sent are two when the second reversal comes 220 ms or more after
  the first, and one when it comes sooner: the second reversal then replaces the timer
  of the first.
\<close>

theorem reverse_twice:
  assumes "truthy (jobId st)" "currentPage st = Some c" "trim c = p" "p \<noteq> []"
    and "2 \<le> length (rows_of st p)" "keys_trimmed st" "ROW_SAVE_DEBOUNCE_MS \<le> quiet"
    and "s1 = reverseCurrentPageRows st" "s2 = reverseCurrentPageRows (advance d s1)"
  shows "map cells (rows_of s2 p) = map cells (rows_of st p) \<and>
     (list_all row_id_ok (rows_of st p) \<longrightarrow> rows_of s2 p = rows_of st p) \<and>
     map_of (pageSaveTimers s1) p = Some (now st + ROW_SAVE_DEBOUNCE_MS) \<and>
     map_of (pageSaveTimers s2) p = Some (now st + d + ROW_SAVE_DEBOUNCE_MS) \<and>
     length (saves_of p (advance quiet s2)) =
       length (saves_of p st) + (if d < ROW_SAVE_DEBOUNCE_MS then 1 else 2)"
proof -
  have t: "trim c \<noteq> []" and l: "2 \<le> length (rows_of st (trim c))" using assms(3,4,5) by simp_all
  note r = double_reverse_rows[OF assms(2) t l]
  note s = double_reverse_saves[OF assms(1,2) t l assms(6,7)]
  show ?thesis using r[of d] s(1)[of d] s(2) s(3)[of d] assms(3,8,9) by simp
qed

lemma mk_row_ok: "list_all row_id_ok [mk_row ''001'' ''20'' [] ''80'', mk_row ''002'' [] ''5'' ''85'']"
  by (simp add: row_id_ok_def mk_row_def trim_def is_space_def)

text \<open>
  Two reversals of page \<open>p1\<close>, 300 ms apart: the rows are back, both timers were set,
  two saves are sent.
\<close>

theorem reverse_twice_witness:
  "rows_of (reverseCurrentPageRows (advance 300 (reverseCurrentPageRows state_p1))) ''p1'' =
     [mk_row ''001'' ''20'' [] ''80'', mk_row ''002'' [] ''5'' ''85''] \<and>
   map_of (pageSaveTimers (reverseCurrentPageRows state_p1)) ''p1'' = Some 220 \<and>
   map_of (pageSaveTimers (reverseCurrentPageRows (advance 300 (reverseCurrentPageRows state_p1)))) ''p1'' = Some 520 \<and>
   length (saves_of ''p1'' (advance 220 (reverseCurrentPageRows (advance 300 (reverseCurrentPageRows state_p1))))) = 2"
proof -
  have l: "2 \<le> length (rows_of state_p1 ''p1'')" by (simp add: state_p1_ready)
  have q: "ROW_SAVE_DEBOUNCE_MS \<le> 220" by (simp add: ROW_SAVE_DEBOUNCE_MS_def)
  have ne: "''p1'' \<noteq> []" by simp
  from reverse_twice[OF state_p1_ready(1) state_p1_simps(2) trim_p1 ne l state_p1_ready(2) q refl refl, of 300]
  show ?thesis using mk_row_ok by (simp add: state_p1_ready state_p1_simps ROW_SAVE_DEBOUNCE_MS_def)
qed

text \<open>
  Two reversals of page \<open>p1\<close>, 100 ms apart: one save is sent.
\<close>

theorem two_quick_reversals_one_save:
  "length (saves_of ''p1'' (advance 1000 (reverseCurrentPageRows (advance 100 (reverseCurrentPageRows state_p1))))) = 1"
proof -
  have l: "2 \<le> length (rows_of state_p1 (trim ''p1''))" by (simp add: state_p1_ready trim_p1)
  have q: "ROW_SAVE_DEBOUNCE_MS \<le> 1000" by (simp add: ROW_SAVE_DEBOUNCE_MS_def)
  have ne: "trim ''p1'' \<noteq> []" by (simp add: trim_p1)
  from double_reverse_saves(1)[OF state_p1_ready(1) state_p1_simps(2) ne l state_p1_ready(2) q, of 100]
  show ?thesis by (simp add: state_p1_ready trim_p1 ROW_SAVE_DEBOUNCE_MS_def)
qed

subsection \<open>Save tokens\<close>

lemma token_of_cong: "pageSaveTokenByPage s = pageSaveTokenByPage t \<Longrightarrow> token_of s q = token_of t q"
  by (simp add: token_of_def)

lemma send_token:
  "token_of (persistPageRows_send p st) q =
     (if truthy (jobId st) \<and> trim p \<noteq> [] \<and> trim p = q then token_of st q + 1 else token_of st q)"
  by (auto simp: persistPageRows_send_def Let_def token_of_def truthy_def split: option.splits)

lemma send_token_slot:
  "truthy (jobId st) \<Longrightarrow> trim p \<noteq> [] \<Longrightarrow>
   pageSaveTokenByPage (persistPageRows_send p st) (trim p) = Some (token_of st (trim p) + 1)"
  by (auto simp: persistPageRows_send_def Let_def truthy_def split: option.splits)

lemma send_mono: "token_of st q \<le> token_of (persistPageRows_send p st) q"
  by (simp add: send_token)

lemma fold_send_mono: "token_of st q \<le> token_of (fold persistPageRows_send ps st) q"
proof (induction ps arbitrary: st)
  case Nil
  then show ?case by simp
next
  case (Cons p ps)
  from send_mono[of st q p] Cons[of "persistPageRows_send p st"] show ?case by simp
qed

lemma flush_mono: "token_of st q \<le> token_of (flushPendingPageSaves st) q"
proof (cases "map fst (pageSaveTimers st) = []")
  case True
  then show ?thesis by (simp add: flushPendingPageSaves_def)
next
  case False
  have "token_of st q = token_of (st\<lparr>pageSaveTimers := []\<rparr>) q" by (simp add: token_of_def)
  then show ?thesis using False fold_send_mono[of "st\<lparr>pageSaveTimers := []\<rparr>" q]
    by (simp add: flushPendingPageSaves_def Let_def)
qed

lemma fire_mono: "token_of st q \<le> token_of (timer_fire k st) q"
proof -
  have "token_of st q = token_of (st\<lparr>pageSaveTimers := AList.delete k (pageSaveTimers st)\<rparr>) q"
    by (simp add: token_of_def)
  then show ?thesis using send_mono[of "st\<lparr>pageSaveTimers := AList.delete k (pageSaveTimers st)\<rparr>" q k]
    by (simp add: timer_fire_def)
qed

lemma fold_fire_mono: "token_of st q \<le> token_of (fold timer_fire ks st) q"
proof (induction ks arbitrary: st)
  case Nil
  then show ?case by simp
next
  case (Cons k ks)
  from fire_mono[of st q k] Cons[of "timer_fire k st"] show ?case by simp
qed

lemma advance_mono: "token_of st q \<le> token_of (advance dt st) q"
proof -
  have "token_of (advance dt st) q = token_of (fold timer_fire (due_timers (now st + dt) st) st) q"
    by (simp add: advance_def token_of_def)
  then show ?thesis using fold_fire_mono[of st q] by simp
qed

lemma loadResultData_mono: "token_of st q \<le> token_of (loadResultData st) q"
proof -
  have "token_of st q = token_of (st\<lparr>resultLoads := resultLoads st + 1\<rparr>) q" by (simp add: token_of_def)
  then show ?thesis using flush_mono[of "st\<lparr>resultLoads := resultLoads st + 1\<rparr>" q]
    by (simp add: loadResultData_def)
qed

lemma pollStatus_response_mono: "token_of st q \<le> token_of (pollStatus_response r st) q"
proof (cases r)
  case (Inl msg)
  then show ?thesis by (simp add: pollStatus_response_def token_of_def)
next
  case (Inr payload)
  have a: "token_of (stopPolling (setStatus payload st)) q = token_of st q"
    by (simp add: token_of_def stopPolling_def)
  have b: "token_of (setStatus payload st) q = token_of st q" by (simp add: token_of_def)
  have c: "token_of ((stopPolling (setStatus payload st))\<lparr>alerts := x\<rparr>) q = token_of st q" for x
    by (simp add: token_of_def stopPolling_def)
  show ?thesis using Inr loadResultData_mono[of "stopPolling (setStatus payload st)" q] a b c
    by (simp add: pollStatus_response_def Let_def)
qed

lemma step_mono: "token_of st q \<le> token_of (step e st) q"
proof (cases e)
  case PollTick
  then show ?thesis by (simp add: poll_tick_def token_of_def)
next
  case (PollResponse r)
  then show ?thesis by (simp add: pollStatus_response_mono)
next
  case (Advance dt)
  then show ?thesis by (simp add: advance_mono)
qed (simp_all add: token_of_def)

lemma run_mono: "token_of st q \<le> token_of (run evs st) q"
proof (induction evs arbitrary: st)
  case Nil
  then show ?case by (simp add: run_def)
next
  case (Cons e evs)
  from step_mono[of st q e] Cons[of "step e st"] show ?case by (simp add: run_def)
qed

lemma receive_stale: "pageSaveTokenByPage st p \<noteq> Some t \<Longrightarrow> persistPageRows_receive p t payload st = st"
  by (simp add: persistPageRows_receive_def)

lemma token_slot_later: "t < token_of st p \<Longrightarrow> pageSaveTokenByPage st p \<noteq> Some t"
  by (auto simp: token_of_def)

lemma apply_rows_rows:
  "rows_of (apply_rows p prows st) p =
     (if sameShape (rows_of st p) prows
      then (if map_of (parsedByPage st) p = None then [] else map2 copy_fields (rows_of st p) prows)
      else if currentPage st = Some p \<and> p \<noteq> [] then assign_row_ids prows else prows)"
proof -
  have sel: "rows_of (case selectedRowId s of None \<Rightarrow> s
                      | Some sel \<Rightarrow> if sel \<noteq> [] \<and> \<not> list_ex (\<lambda>r. str_of (row_id r) = sel) chk
                                     then s\<lparr>selectedRowId := None\<rparr> else s) p = rows_of s p" for s chk
    by (simp add: rows_of_def split: option.splits)
  show ?thesis
    by (simp add: apply_rows_def Let_def sel)
       (auto simp: rows_of_def map_of_map_entry update_conv' renderRows_def recomputeTotalParsedRows_def
             split: option.splits)
qed

lemma receive_rows:
  assumes "pageSaveTokenByPage st p = Some t" "sp_rows payload = Some prows"
  shows "rows_of (persistPageRows_receive p t payload st) p = rows_of (apply_rows p prows st) p"
  using assms
  by (simp add: persistPageRows_receive_def Let_def rows_of_def recomputeTotalParsedRows_def split: option.splits)

lemma receive_shows:
  assumes "pageSaveTokenByPage st p = Some t" "sp_rows payload = Some prows"
  shows "shows_response (rows_of st p) prows (rows_of (persistPageRows_receive p t payload st) p)"
proof -
  let ?before = "rows_of st p"
  let ?after = "rows_of (persistPageRows_receive p t payload st) p"
  have r: "?after = rows_of (apply_rows p prows st) p" using assms by (rule receive_rows)
  show ?thesis
  proof (cases "sameShape ?before prows")
    case True
    then have len: "length ?before = length prows" by (simp add: sameShape_def)
    show ?thesis
    proof (cases "map_of (parsedByPage st) p")
      case None
      then have "?before = []" by (simp add: rows_of_def)
      with len have "prows = []" by simp
      moreover have "?after = []" using r True None by (simp add: apply_rows_rows)
      ultimately show ?thesis by (simp add: shows_response_def)
    next
      case (Some xs)
      then have a: "?after = map2 copy_fields ?before prows" using r True by (simp add: apply_rows_rows)
      show ?thesis using True len
        by (simp add: shows_response_def a list_all_iff copy_fields_def)
    qed
  next
    case False
    have "map cells ?after = map cells prows"
      using r False by (simp add: apply_rows_rows assign_cells)
    then have "length ?after = length prows" "\<And>i. i < length prows \<Longrightarrow> cells (?after ! i) = cells (prows ! i)"
      by (metis length_map, metis length_map nth_map)
    then show ?thesis using False by (simp add: shows_response_def list_all_iff)
  qed
qed

text \<open>
  Claim C1, as the code has it.  A response is applied only if the token of its request
  is still the page's token: a response with another token leaves the state as it is, and
  one with the page's token leaves the page showing the rows of the response.  The token
  moves when a save is sent, not when it is queued.  With a job open, let A be a save of
  page \<open>p\<close>, sent with token \<open>tA\<close>, and B a later save of the same page, sent with token
  \<open>tB\<close> after whatever happened between.  Then \<open>tA < tB\<close>; the response to A, arriving
  at any time after B was sent (whatever has happened since, later saves included),
  changes nothing; and in both orders of arrival the state is the one that the response
  to B alone gives, the page showing B's rows.  But while a save queued by an edit is
  still waiting for its timer, the response to A is applied over the edited rows.
\<close>

theorem token_guards_responses:
  assumes job: "truthy (jobId st)" and page: "trim page = p" "p \<noteq> []"
    and sA: "sA = persistPageRows_send page st" and tA: "tA = token_of sA p"
    and sB: "sB = persistPageRows_send page (run between sA)" and tB: "tB = token_of sB p"
  shows "(\<forall>s t payload. pageSaveTokenByPage s p \<noteq> Some t \<longrightarrow> persistPageRows_receive p t payload s = s) \<and>
     (\<forall>s t payload prows. pageSaveTokenByPage s p = Some t \<and> sp_rows payload = Some prows \<longrightarrow>
        shows_response (rows_of s p) prows (rows_of (persistPageRows_receive p t payload s) p)) \<and>
     (\<forall>s q e. pageSaveTokenByPage (queuePageRowsSave q s) = pageSaveTokenByPage s \<and>
              pageSaveTokenByPage (input_event q e s) = pageSaveTokenByPage s) \<and>
     pageSaveTokenByPage sA p = Some tA \<and> pageSaveTokenByPage sB p = Some tB \<and> tA < tB \<and>
     (\<forall>later. persistPageRows_receive p tA rA (run later sB) = run later sB) \<and>
     persistPageRows_receive p tB rB (persistPageRows_receive p tA rA sB) = persistPageRows_receive p tB rB sB \<and>
     persistPageRows_receive p tA rA (persistPageRows_receive p tB rB sB) = persistPageRows_receive p tB rB sB \<and>
     (\<forall>prows. sp_rows rB = Some prows \<longrightarrow>
        shows_response (rows_of sB p) prows (rows_of (persistPageRows_receive p tB rB sB) p)) \<and>
     (\<forall>e prows. sp_rows rA = Some prows \<longrightarrow>
        pending p (now sA + ROW_SAVE_DEBOUNCE_MS) (input_event page e sA) \<and>
        shows_response (rows_of (input_event page e sA) p) prows
          (rows_of (persistPageRows_receive p tA rA (input_event page e sA)) p))"
proof -
  have tp: "trim page \<noteq> []" using page by simp
  have slotA: "pageSaveTokenByPage sA p = Some (token_of st p + 1)"
    using send_token_slot[OF job tp] page sA by simp
  then have tA': "tA = token_of st p + 1" using tA by (simp add: token_of_def)
  let ?m = "run between sA"
  have jA: "truthy (jobId sA)" using job sA by simp
  have jm: "truthy (jobId ?m)" using job sA by simp
  have slotB: "pageSaveTokenByPage sB p = Some (token_of ?m p + 1)"
    using send_token_slot[OF jm tp] page sB by simp
  then have tB': "tB = token_of ?m p + 1" using tB by (simp add: token_of_def)
  have "tA \<le> token_of ?m p" using run_mono[of sA p between] tA by simp
  then have lt: "tA < tB" using tB' by simp
  have later: "persistPageRows_receive p tA rA (run later sB) = run later sB" for later
  proof -
    have "tB \<le> token_of (run later sB) p" using run_mono[of sB p later] tB by simp
    then have "tA < token_of (run later sB) p" using lt by simp
    then show ?thesis by (intro receive_stale token_slot_later)
  qed
  have ab: "persistPageRows_receive p tA rA sB = sB" using later[of "[]"] by (simp add: run_def)
  have ba: "persistPageRows_receive p tA rA (persistPageRows_receive p tB rB sB) = persistPageRows_receive p tB rB sB"
    using later[of "[SaveResponse p tB rB]"] by (simp add: run_def)
  have rowsB: "shows_response (rows_of sB p) prows (rows_of (persistPageRows_receive p tB rB sB) p)"
    if "sp_rows rB = Some prows" for prows
    using receive_shows[OF _ that, of sB p tB] slotB tB' by simp
  have queued: "pending p (now sA + ROW_SAVE_DEBOUNCE_MS) (input_event page e sA) \<and>
        shows_response (rows_of (input_event page e sA) p) prows
          (rows_of (persistPageRows_receive p tA rA (input_event page e sA)) p)"
    if "sp_rows rA = Some prows" for e prows
  proof -
    have "pageSaveTokenByPage (input_event page e sA) p = Some tA" using slotA tA' by simp
    from receive_shows[OF this that] input_pending[OF jA tp, of e] page show ?thesis by simp
  qed
  have applied: "shows_response (rows_of s p) prows (rows_of (persistPageRows_receive p t payload s) p)"
    if "pageSaveTokenByPage s p = Some t \<and> sp_rows payload = Some prows" for s t payload prows
    using that receive_shows by blast
  show ?thesis
    using slotA tA' slotB tB' lt later ab ba rowsB receive_stale queued applied
    by (intro conjI allI impI) simp_all
qed

text \<open>
  Two saves of page \<open>p1\<close> carry the tokens 1 and 2.  The response to the first is
  dropped after the second was sent, both orders of arrival end in the same state, and
  the page then holds the one row of the second response.
\<close>

theorem token_guards_responses_witness:
  "token_of (persistPageRows_send ''p1'' state_p1) ''p1'' = 1 \<and>
   token_of (persistPageRows_send ''p1'' (persistPageRows_send ''p1'' state_p1)) ''p1'' = 2 \<and>
   persistPageRows_receive ''p1'' 1 response_a (persistPageRows_send ''p1'' (persistPageRows_send ''p1'' state_p1))
     = persistPageRows_send ''p1'' (persistPageRows_send ''p1'' state_p1) \<and>
   persistPageRows_receive ''p1'' 1 response_a
     (persistPageRows_receive ''p1'' 2 response_b (persistPageRows_send ''p1'' (persistPageRows_send ''p1'' state_p1)))
     = persistPageRows_receive ''p1'' 2 response_b (persistPageRows_send ''p1'' (persistPageRows_send ''p1'' state_p1)) \<and>
   persistPageRows_receive ''p1'' 2 response_b
     (persistPageRows_receive ''p1'' 1 response_a (persistPageRows_send ''p1'' (persistPageRows_send ''p1'' state_p1)))
     = persistPageRows_receive ''p1'' 2 response_b (persistPageRows_send ''p1'' (persistPageRows_send ''p1'' state_p1)) \<and>
   map cells (rows_of (persistPageRows_receive ''p1'' 2 response_b
                (persistPageRows_send ''p1'' (persistPageRows_send ''p1'' state_p1))) ''p1'')
     = [cells (mk_row ''001'' ''20.00'' [] ''80.00'')]"
proof -
  let ?sA = "persistPageRows_send ''p1'' state_p1"
  let ?sB = "persistPageRows_send ''p1'' ?sA"
  let ?after = "rows_of (persistPageRows_receive ''p1'' 2 response_b ?sB) ''p1''"
  have ne: "''p1'' \<noteq> []" by simp
  have tA: "token_of ?sA ''p1'' = 1" by (simp add: send_token state_p1_ready trim_p1)
  have tB: "token_of ?sB ''p1'' = 2" by (simp add: send_token state_p1_ready trim_p1)
  have sb: "?sB = persistPageRows_send ''p1'' (run [] ?sA)" by (simp add: run_def)
  note T = token_guards_responses[OF state_p1_ready(1) trim_p1 ne refl refl sb refl, of response_a response_b]
  from T have d: "persistPageRows_receive ''p1'' (token_of ?sA ''p1'') response_a (run [] ?sB) = run [] ?sB"
    by blast
  from T have ab: "persistPageRows_receive ''p1'' (token_of ?sB ''p1'') response_b
       (persistPageRows_receive ''p1'' (token_of ?sA ''p1'') response_a ?sB)
     = persistPageRows_receive ''p1'' (token_of ?sB ''p1'') response_b ?sB" by blast
  from T have ba: "persistPageRows_receive ''p1'' (token_of ?sA ''p1'') response_a
       (persistPageRows_receive ''p1'' (token_of ?sB ''p1'') response_b ?sB)
     = persistPageRows_receive ''p1'' (token_of ?sB ''p1'') response_b ?sB" by blast
  have rb: "sp_rows response_b = Some [mk_row ''001'' ''20.00'' [] ''80.00'']" by (simp add: response_b_def)
  from T rb have "shows_response (rows_of ?sB ''p1'') [mk_row ''001'' ''20.00'' [] ''80.00'']
      (rows_of (persistPageRows_receive ''p1'' (token_of ?sB ''p1'') response_b ?sB) ''p1'')" by blast
  then have sh: "shows_response (rows_of ?sB ''p1'') [mk_row ''001'' ''20.00'' [] ''80.00''] ?after"
    by (simp only: tB)
  have "rows_of ?sB ''p1'' = rows_of state_p1 ''p1''" by (simp add: rows_of_def)
  then have "\<not> sameShape (rows_of ?sB ''p1'') [mk_row ''001'' ''20.00'' [] ''80.00'']"
    by (simp add: state_p1_ready sameShape_def)
  with sh have "length ?after = 1 \<and> cells (?after ! 0) = cells (mk_row ''001'' ''20.00'' [] ''80.00'')"
    by (simp add: shows_response_def)
  then have rows: "map cells ?after = [cells (mk_row ''001'' ''20.00'' [] ''80.00'')]"
    by (cases ?after) simp_all
  from d have d': "persistPageRows_receive ''p1'' 1 response_a ?sB = ?sB" by (simp add: tA run_def)
  from ab have ab': "persistPageRows_receive ''p1'' 2 response_b (persistPageRows_receive ''p1'' 1 response_a ?sB)
     = persistPageRows_receive ''p1'' 2 response_b ?sB" by (simp only: tA tB)
  from ba have ba': "persistPageRows_receive ''p1'' 1 response_a (persistPageRows_receive ''p1'' 2 response_b ?sB)
     = persistPageRows_receive ''p1'' 2 response_b ?sB" by (simp only: tA tB)
  from tA tB d' ba' ab' rows show ?thesis by (intro conjI)
qed

lemma state_rent_simps:
  "jobId state_rent = Some ''a''" "currentPage state_rent = Some ''p1''" "pageSaveTimers state_rent = []"
  "requests state_rent = []" "now state_rent = 0" "pageSaveTokenByPage state_rent = Map.empty"
  "parsedByPage state_rent = [(''p1'', [note_row ''rent''])]" "selectedRowId state_rent = None"
  by (simp_all add: state_rent_def state_a_def state0_def)

lemma trim_words:
  "trim ''001'' = ''001''" "trim ''rent'' = ''rent''" "trim ''rent is due'' = ''rent is due''"
  by (simp_all add: trim_def is_space_def)

lemma payload_note_row: "payload_row 0 (note_row d) = note_row (trim d)"
  by (simp add: payload_row_def note_row_def default_row_id_def str_of_def str_or_def trim_words
      normalizeEditableCellValue_def format_empty trim_empty Let_def)

lemma copy_note_row: "copy_fields (note_row d) (note_row d') = note_row (trim d')"
  by (simp add: copy_fields_def note_row_def str_of_def str_or_def trim_words
      normalizeEditableCellValue_def format_empty trim_empty)

text \<open>
  Save A of page \<open>p1\<close> is sent with the description \<open>rent\<close>.  The description is
  then edited, which queues save B.  The response to A arrives before the timer of B
  expires: it is not discarded, the edited description is overwritten with the one of
  the response, and B, sent 220 ms later, carries the old description.
\<close>

theorem queued_save_response_applied:
  "saves_of ''p1'' (persistPageRows_send ''p1'' state_rent) = [PutParsed ''a'' ''p1'' 1 [note_row ''rent'']] \<and>
   pending ''p1'' 220 (input_event ''p1'' (0, Description, ''rent is due'') (persistPageRows_send ''p1'' state_rent)) \<and>
   pageSaveTokenByPage
     (input_event ''p1'' (0, Description, ''rent is due'') (persistPageRows_send ''p1'' state_rent)) ''p1'' = Some 1 \<and>
   rows_of (input_event ''p1'' (0, Description, ''rent is due'') (persistPageRows_send ''p1'' state_rent)) ''p1''
     = [note_row ''rent is due''] \<and>
   rows_of (persistPageRows_receive ''p1'' 1 response_rent
             (input_event ''p1'' (0, Description, ''rent is due'') (persistPageRows_send ''p1'' state_rent))) ''p1''
     = [note_row ''rent''] \<and>
   saves_of ''p1'' (advance 220 (persistPageRows_receive ''p1'' 1 response_rent
             (input_event ''p1'' (0, Description, ''rent is due'') (persistPageRows_send ''p1'' state_rent))))
     = [PutParsed ''a'' ''p1'' 1 [note_row ''rent''], PutParsed ''a'' ''p1'' 2 [note_row ''rent'']]"
proof -
  let ?sA = "persistPageRows_send ''p1'' state_rent"
  let ?m = "input_event ''p1'' (0, Description, ''rent is due'') ?sA"
  let ?r = "persistPageRows_receive ''p1'' 1 response_rent ?m"
  have sA: "?sA = state_rent\<lparr>pageSaveTokenByPage := [''p1'' \<mapsto> 1],
                             requests := [PutParsed ''a'' ''p1'' 1 [note_row ''rent'']]\<rparr>"
    by (simp add: persistPageRows_send_def Let_def trim_p1 state_rent_simps rows_of_def token_of_def
        payload_note_row trim_words)
  have m: "?m = state_rent\<lparr>pageSaveTokenByPage := [''p1'' \<mapsto> 1],
                           requests := [PutParsed ''a'' ''p1'' 1 [note_row ''rent'']],
                           parsedByPage := [(''p1'', [note_row ''rent is due''])],
                           pageSaveTimers := [(''p1'', 220)]\<rparr>"
    by (simp add: sA input_event_def queuePageRowsSave_def Let_def trim_p1 state_rent_simps truthy_def
        set_field_def note_row_def ROW_SAVE_DEBOUNCE_MS_def)
  have same: "sameShape [note_row ''rent is due''] [note_row ''rent'']"
    by (simp add: sameShape_def id_or_index_def note_row_def)
  have r: "?r = state_rent\<lparr>pageSaveTokenByPage := [''p1'' \<mapsto> 1],
                           requests := [PutParsed ''a'' ''p1'' 1 [note_row ''rent'']],
                           parsedByPage := [(''p1'', [note_row ''rent''])],
                           pageSaveTimers := [(''p1'', 220)],
                           totalParsedRows := 1\<rparr>"
    by (simp add: m persistPageRows_receive_def response_rent_def apply_rows_def Let_def rows_of_def
        state_rent_simps same copy_note_row trim_words recomputeTotalParsedRows_def)
  have adv: "saves_of ''p1'' (advance 220 ?r)
     = [PutParsed ''a'' ''p1'' 1 [note_row ''rent''], PutParsed ''a'' ''p1'' 2 [note_row ''rent'']]"
    unfolding r
    by (simp add: advance_def due_timers_def timer_fire_def persistPageRows_send_def Let_def trim_p1
        state_rent_simps rows_of_def token_of_def payload_note_row trim_words saves_of_def)
  show ?thesis
  proof (intro conjI)
    show "saves_of ''p1'' ?sA = [PutParsed ''a'' ''p1'' 1 [note_row ''rent'']]"
      unfolding sA by (simp add: saves_of_def)
    show "pending ''p1'' 220 ?m" unfolding m by (simp add: pending_def)
    show "pageSaveTokenByPage ?m ''p1'' = Some 1" unfolding m by simp
    show "rows_of ?m ''p1'' = [note_row ''rent is due'']" unfolding m by (simp add: rows_of_def)
    show "rows_of ?r ''p1'' = [note_row ''rent'']" unfolding r by (simp add: rows_of_def)
  qed (rule adv)
qed

end
